theory Spec2Isabelle
  imports Complex_Main
begin

section \<open>Errors\<close>

text \<open>
  Every exception the modelled functions of \<^verbatim>\<open>utils.py\<close> can raise is a value:
  Python's \<^verbatim>\<open>ZeroDivisionError\<close>; \<^verbatim>\<open>IndexError\<close> for an index outside a tensor;
  \<open>TensorError\<close> for every other exception the tensor library raises on shapes and
  ranges it does not accept (a shape mismatch, a reduction of an empty tensor, a negative
  size, a range outside a dimension); and the two \<^verbatim>\<open>assert\<close> statements of
  \<^verbatim>\<open>FocalFrequencyLoss\<close>: the one on the patch factor and the one on the range of the
  spectrum weight matrix, whose message carries the observed minimum and maximum.
\<close>

datatype error =
    ZeroDivisionError
  | IndexError
  | TensorError
  | PatchFactorAssertion
  | WeightRangeAssertion real real

section \<open>PatchGenerator\<close>

text \<open>
  \<^verbatim>\<open>PatchGenerator.__init__\<close> stores \<^verbatim>\<open>H\<close>, \<^verbatim>\<open>W\<close> and \<^verbatim>\<open>padding\<close> and
  computes the patch size: \<^verbatim>\<open>H // 2 + padding\<close> when none is given.
\<close>

record PatchGenerator =
  H :: int
  W :: int
  padding :: int
  patch_size :: int

definition calc_patch_size :: "int \<Rightarrow> int \<Rightarrow> int option \<Rightarrow> int" where
  "calc_patch_size h p ps = (case ps of None \<Rightarrow> h div 2 + p | Some s \<Rightarrow> s)"

definition PatchGenerator_init :: "int \<Rightarrow> int \<Rightarrow> int option \<Rightarrow> int \<Rightarrow> PatchGenerator" where
  "PatchGenerator_init h w ps p =
     \<lparr>H = h, W = w, padding = p, patch_size = calc_patch_size h p ps\<rparr>"

text \<open>
  \<^verbatim>\<open>int(np.ceil((L - padding * 2) / (patch_size - padding * 2)))\<close>: a true division of
  Python integers, which raises on a zero divisor, then the ceiling.
\<close>

definition block_num :: "int \<Rightarrow> int \<Rightarrow> int \<Rightarrow> error + int" where
  "block_num l p ps =
     (if ps - p * 2 = 0 then Inl ZeroDivisionError
      else Inr \<lceil>real_of_int (l - p * 2) / real_of_int (ps - p * 2)\<rceil>)"

text \<open>
  The offset of tile \<open>i\<close> of \<open>n\<close> along an axis of length \<open>l\<close>:
  \<^verbatim>\<open>h = i * (patch_size - 2 * padding); if i == 0: h = 0; elif i == n - 1: h = l - patch_size\<close>.
\<close>

definition tile_offset :: "int \<Rightarrow> int \<Rightarrow> int \<Rightarrow> int \<Rightarrow> int \<Rightarrow> int" where
  "tile_offset i n l p ps =
     (if i = 0 then 0 else if i = n - 1 then l - ps else i * (ps - 2 * p))"

text \<open>
  The two paddings of tile \<open>i\<close> of \<open>n\<close> along an axis, start side first:
  \<^verbatim>\<open>a, b = padding, padding; if i == 0: a = 0; elif i == n - 1: b = 0\<close>.
\<close>

definition tile_padding :: "int \<Rightarrow> int \<Rightarrow> int \<Rightarrow> int \<times> int" where
  "tile_padding i n p =
     (if i = 0 then (0, p) else if i = n - 1 then (p, 0) else (p, p))"

type_synonym patch = "int \<times> int \<times> int \<times> int \<times> int \<times> int"

text \<open>
  The descriptors \<^verbatim>\<open>next_patch\<close> yields, in order (rows outer, columns inner):
  \<^verbatim>\<open>(h, w, top_padding, left_padding, bottom_padding, right_padding)\<close>.
  \<^verbatim>\<open>range(n)\<close> is \<open>[0..n - 1]\<close>, empty when \<open>n \<le> 0\<close>.
\<close>

definition tiles :: "PatchGenerator \<Rightarrow> int \<Rightarrow> int \<Rightarrow> patch list" where
  "tiles g hn wn =
     concat (map (\<lambda>i.
       map (\<lambda>j.
         (tile_offset i hn (H g) (padding g) (patch_size g),
          tile_offset j wn (W g) (padding g) (patch_size g),
          fst (tile_padding i hn (padding g)),
          fst (tile_padding j wn (padding g)),
          snd (tile_padding i hn (padding g)),
          snd (tile_padding j wn (padding g)))) [0..wn - 1]) [0..hn - 1])"

definition next_patch :: "PatchGenerator \<Rightarrow> error + patch list" where
  "next_patch g =
     (case block_num (H g) (padding g) (patch_size g) of
        Inl e \<Rightarrow> Inl e
      | Inr hn \<Rightarrow>
          (case block_num (W g) (padding g) (patch_size g) of
             Inl e \<Rightarrow> Inl e
           | Inr wn \<Rightarrow> Inr (tiles g hn wn)))"

section \<open>MATLAB-style resize: weights and indices\<close>

text \<open>
  Python floats are numbers of double precision and the entries of the tensors are
  numbers of single precision: the result of an operation is the exact result, rounded as
  the Python runtime and the tensor library do it. The model keeps the numbers as reals
  and takes the operations themselves as a parameter, a record \<open>arith\<close> with the
  operators of Python on floats (\<^verbatim>\<open>*\<close>, \<^verbatim>\<open>/\<close>, \<^verbatim>\<open>-\<close>) and the operations of the
  tensor library on the entries of a tensor (\<^verbatim>\<open>+\<close>, \<^verbatim>\<open>-\<close>, \<^verbatim>\<open>*\<close>, \<^verbatim>\<open>/\<close>,
  \<^verbatim>\<open>**\<close> and \<^verbatim>\<open>torch.sum\<close>; the other operand is an entry or a Python number, which
  the library converts). Integers (sizes, indices, the results of \<^verbatim>\<open>math.ceil\<close> and
  \<^verbatim>\<open>torch.floor\<close>) are exact. A value of type \<open>fl\<close> is \<open>Some r\<close> for the number \<open>r\<close>
  and \<open>None\<close> for a non-finite float (an infinity or a NaN), which is what a division by
  zero produces in the tensor library, where it raises nothing.
\<close>

record arith =
  py_mul :: "real \<Rightarrow> real \<Rightarrow> real"
  py_div :: "real \<Rightarrow> real \<Rightarrow> real"
  py_sub :: "real \<Rightarrow> real \<Rightarrow> real"
  t_add :: "real \<Rightarrow> real \<Rightarrow> real"
  t_sub :: "real \<Rightarrow> real \<Rightarrow> real"
  t_mul :: "real \<Rightarrow> real \<Rightarrow> real"
  t_div :: "real \<Rightarrow> real \<Rightarrow> real"
  t_pow :: "real \<Rightarrow> nat \<Rightarrow> real"
  t_sum :: "real list \<Rightarrow> real"

type_synonym fl = "real option"

definition fdiv :: "real \<Rightarrow> real \<Rightarrow> fl" where
  "fdiv a b = (if b = 0 then None else Some (a / b))"

definition seq :: "error + 'a \<Rightarrow> ('a \<Rightarrow> error + 'b) \<Rightarrow> error + 'b" where
  "seq m f = (case m of Inl e \<Rightarrow> Inl e | Inr x \<Rightarrow> f x)"

text \<open>The cubic convolution kernel \<^verbatim>\<open>cubic(x)\<close>, on one entry of the tensor.\<close>

definition cubic :: "arith \<Rightarrow> real \<Rightarrow> real" where
  "cubic ar x =
     (let absx = \<bar>x\<bar>; absx2 = t_pow ar absx 2; absx3 = t_pow ar absx 3
      in t_add ar
           (t_mul ar
              (t_add ar (t_sub ar (t_mul ar 1.5 absx3) (t_mul ar 2.5 absx2)) 1)
              (if absx \<le> 1 then 1 else 0))
           (t_mul ar
              (t_add ar
                 (t_sub ar (t_add ar (t_mul ar (- 0.5) absx3) (t_mul ar 2.5 absx2))
                    (t_mul ar 4 absx)) 2)
              (if 1 < absx \<and> absx \<le> 2 then 1 else 0)))"

text \<open>
  \<^verbatim>\<open>if (scale < 1) and (antialiasing): kernel_width = kernel_width / scale\<close>, a division
  of Python numbers.
\<close>

definition widen_kernel :: "arith \<Rightarrow> real \<Rightarrow> real \<Rightarrow> bool \<Rightarrow> error + real" where
  "widen_kernel ar scale kernel_width antialiasing =
     (if scale < 1 \<and> antialiasing
      then (if scale = 0 then Inl ZeroDivisionError else Inr (py_div ar kernel_width scale))
      else Inr kernel_width)"

text \<open>\<^verbatim>\<open>x = torch.linspace(1, out_length, out_length)\<close>, for \<open>out_length \<ge> 0\<close>.\<close>

definition out_coords :: "int \<Rightarrow> real list" where
  "out_coords out_length = map (\<lambda>k. real (Suc k)) [0..<nat out_length]"

text \<open>
  \<^verbatim>\<open>u = x / scale + 0.5 * (1 - 1 / scale)\<close>: the right summand is a Python float, the
  quotient and the sum are taken by the tensor library.
\<close>

definition in_coord :: "arith \<Rightarrow> real \<Rightarrow> real \<Rightarrow> real" where
  "in_coord ar scale x =
     t_add ar (t_div ar x scale) (py_mul ar 0.5 (py_sub ar 1 (py_div ar 1 scale)))"

text \<open>\<^verbatim>\<open>left = torch.floor(u - kernel_width / 2)\<close>.\<close>

definition left_tap :: "arith \<Rightarrow> real \<Rightarrow> real \<Rightarrow> int" where
  "left_tap ar kernel_width u = \<lfloor>t_sub ar u (py_div ar kernel_width 2)\<rfloor>"

text \<open>Row \<open>k\<close> of \<^verbatim>\<open>indices\<close>: \<open>left[k] + 0, \<dots>, left[k] + P - 1\<close>.\<close>

definition index_row :: "nat \<Rightarrow> int \<Rightarrow> int list" where
  "index_row P l = map (\<lambda>j. l + int j) [0..<P]"

text \<open>
  One entry of \<^verbatim>\<open>weights\<close> before normalisation, for the output pixel at input
  coordinate \<open>u\<close> and the input pixel \<open>i\<close>:
  \<^verbatim>\<open>scale * cubic(distance_to_center * scale)\<close> when antialiasing a downscale,
  \<^verbatim>\<open>cubic(distance_to_center)\<close> otherwise, with \<^verbatim>\<open>distance_to_center = u - indices\<close>.
\<close>

definition kernel_weight :: "arith \<Rightarrow> real \<Rightarrow> bool \<Rightarrow> real \<Rightarrow> int \<Rightarrow> real" where
  "kernel_weight ar scale antialiasing u i =
     (if scale < 1 \<and> antialiasing
      then t_mul ar scale (cubic ar (t_mul ar (t_sub ar u (real_of_int i)) scale))
      else cubic ar (t_sub ar u (real_of_int i)))"

text \<open>
  \<^verbatim>\<open>weights_sum = torch.sum(weights, 1)\<close> and
  \<^verbatim>\<open>weights = weights / weights_sum.expand(out_length, P)\<close>, row by row; the quotient
  by a sum that is zero is not finite.
\<close>

definition normalize_row :: "arith \<Rightarrow> real list \<Rightarrow> fl list" where
  "normalize_row ar ws =
     map (\<lambda>w. if t_sum ar ws = 0 then None else Some (t_div ar w (t_sum ar ws))) ws"

definition weight_row :: "arith \<Rightarrow> real \<Rightarrow> bool \<Rightarrow> real \<Rightarrow> int list \<Rightarrow> fl list" where
  "weight_row ar scale antialiasing u row =
     normalize_row ar (map (kernel_weight ar scale antialiasing u) row)"

text \<open>
  Entry \<open>j\<close> of \<^verbatim>\<open>weights_zero_tmp = torch.sum((weights == 0), 0)\<close>: the number of rows
  whose weight in column \<open>j\<close> equals 0.
\<close>

definition zero_count :: "fl list list \<Rightarrow> nat \<Rightarrow> nat" where
  "zero_count ws j = length (filter (\<lambda>r. r ! j = Some 0) ws)"

text \<open>
  \<^verbatim>\<open>t.narrow(1, start, length)\<close> on a matrix of \<open>width\<close> columns: the columns
  \<open>start, \<dots>, start + length - 1\<close>; an error of the tensor library when the length
  is negative or the range leaves the matrix.
\<close>

definition narrow_cols :: "nat \<Rightarrow> int \<Rightarrow> nat \<Rightarrow> 'a list list \<Rightarrow> error + 'a list list" where
  "narrow_cols start len width rows =
     (if len < 0 \<or> int width < int start + len then Inl TensorError
      else Inr (map (\<lambda>r. take (nat len) (drop start r)) rows))"

text \<open>
  The two pruning steps. \<^verbatim>\<open>weights_zero_tmp\<close> is computed once, on the full matrix
  of \<open>P\<close> columns. When its first entry is not 0 (\<^verbatim>\<open>math.isclose\<close> with a relative
  tolerance compares with 0 exactly), both matrices become
  \<^verbatim>\<open>narrow(1, 1, P - 2)\<close>; when its last entry is not 0, both become
  \<^verbatim>\<open>narrow(1, 0, P - 2)\<close> of what they are by then. The state is the pair of matrices
  and their current number of columns.
\<close>

type_synonym matrices = "fl list list \<times> int list list \<times> nat"

definition prune :: "bool \<Rightarrow> nat \<Rightarrow> int \<Rightarrow> matrices \<Rightarrow> error + matrices" where
  "prune zero_seen start P m =
     (case m of (weights, indices, width) \<Rightarrow>
        if zero_seen then
          seq (narrow_cols start (P - 2) width indices) (\<lambda>indices'.
          seq (narrow_cols start (P - 2) width weights) (\<lambda>weights'.
          Inr (weights', indices', nat (P - 2))))
        else Inr m)"

text \<open>
  The end of the function: \<^verbatim>\<open>sym_len_s = -indices.min() + 1\<close>,
  \<^verbatim>\<open>sym_len_e = indices.max() - in_length\<close>,
  \<^verbatim>\<open>indices = indices + sym_len_s - 1\<close>. The minimum of an empty tensor is an error
  of the tensor library.
\<close>

definition shift_indices ::
  "int \<Rightarrow> matrices \<Rightarrow> error + (fl list list \<times> int list list \<times> int \<times> int)" where
  "shift_indices in_length m =
     (case m of (weights, indices, width) \<Rightarrow>
        if concat indices = [] then Inl TensorError
        else
          let sym_len_s = - Min (set (concat indices)) + 1;
              sym_len_e = Max (set (concat indices)) - in_length
          in Inr (weights, map (map (\<lambda>i. i + sym_len_s - 1)) indices, sym_len_s, sym_len_e))"

text \<open>
  \<^verbatim>\<open>calculate_weights_indices(in_length, out_length, scale, kernel, kernel_width,
  antialiasing)\<close>; the argument \<^verbatim>\<open>kernel\<close> is never read. The checks stand in the order
  in which the source reaches them: the division of the kernel width by the scale,
  \<^verbatim>\<open>torch.linspace\<close> with a negative number of steps, the division \<^verbatim>\<open>1 / scale\<close>,
  \<^verbatim>\<open>torch.linspace(0, P - 1, P)\<close> with negative \<open>P\<close>, and \<^verbatim>\<open>weights_zero_tmp[0]\<close> on
  a matrix with no column.
\<close>

definition calculate_weights_indices ::
  "arith \<Rightarrow> int \<Rightarrow> int \<Rightarrow> real \<Rightarrow> real \<Rightarrow> bool \<Rightarrow>
     error + (fl list list \<times> int list list \<times> int \<times> int)" where
  "calculate_weights_indices ar in_length out_length scale kernel_width antialiasing =
     seq (widen_kernel ar scale kernel_width antialiasing) (\<lambda>kw.
       if out_length < 0 then Inl TensorError
       else if scale = 0 then Inl ZeroDivisionError
       else
         let u = map (in_coord ar scale) (out_coords out_length);
             P = \<lceil>kw\<rceil> + 2
         in if P < 0 then Inl TensorError
            else if P = 0 then Inl IndexError
            else
              let indices = map (\<lambda>v. index_row (nat P) (left_tap ar kw v)) u;
                  weights = map (\<lambda>v. weight_row ar scale antialiasing v
                                        (index_row (nat P) (left_tap ar kw v))) u
              in seq (prune (zero_count weights 0 \<noteq> 0) 1 P (weights, indices, nat P))
                   (\<lambda>m. seq (prune (zero_count weights (nat P - 1) \<noteq> 0) 0 P m)
                     (shift_indices in_length)))"

section \<open>MATLAB-style resize: the image\<close>

text \<open>
  A tensor of three dimensions is its shape and its entries, read at the positions inside
  the shape. For an image the dimensions are channel, row and column.
\<close>

record 'a tensor3 =
  channels :: nat
  rows :: nat
  cols :: nat
  entry :: "nat \<Rightarrow> nat \<Rightarrow> nat \<Rightarrow> 'a"

text \<open>
  Products and sums of floats that may be non-finite, as \<^verbatim>\<open>mv\<close> takes them: a
  non-finite operand gives a non-finite result, and the result on finite operands is
  taken without rounding.
\<close>

definition fmul :: "fl \<Rightarrow> fl \<Rightarrow> fl" where
  "fmul a b = (case (a, b) of (Some x, Some y) \<Rightarrow> Some (x * y) | _ \<Rightarrow> None)"

definition fadd :: "fl \<Rightarrow> fl \<Rightarrow> fl" where
  "fadd a b = (case (a, b) of (Some x, Some y) \<Rightarrow> Some (x + y) | _ \<Rightarrow> None)"

definition fsum :: "fl list \<Rightarrow> fl" where
  "fsum xs = foldr fadd xs (Some 0)"

text \<open>
  \<^verbatim>\<open>torch.FloatTensor(c, h, w)\<close> allocates without initialising: the entries are whatever
  the memory holds, the parameter \<open>junk\<close>. A negative size is an error.
\<close>

definition FloatTensor ::
  "(nat \<Rightarrow> nat \<Rightarrow> nat \<Rightarrow> fl) \<Rightarrow> nat \<Rightarrow> int \<Rightarrow> nat \<Rightarrow> error + fl tensor3" where
  "FloatTensor junk c h w =
     (if h < 0 then Inl TensorError
      else Inr \<lparr>channels = c, rows = nat h, cols = w, entry = junk\<rparr>)"

text \<open>
  A source of size \<open>a\<close> along a dimension can be copied into a destination of size \<open>b\<close>
  when the sizes agree or the source has size 1 and is repeated (broadcasting).
\<close>

definition broadcastable :: "nat \<Rightarrow> nat \<Rightarrow> bool" where
  "broadcastable a b = (a = b \<or> a = 1)"

definition bidx :: "nat \<Rightarrow> nat \<Rightarrow> nat" where
  "bidx a i = (if a = 1 then 0 else i)"

text \<open>
  \<^verbatim>\<open>dst.narrow(1, start, length).copy_(src)\<close>: the rows \<open>start, \<dots>, start + length - 1\<close>
  of \<open>dst\<close> are overwritten with \<open>src\<close>. A negative start counts from the end; a range
  outside the rows of \<open>dst\<close> and a source that cannot be broadcast to the narrowed shape
  are errors.
\<close>

definition copy_rows :: "fl tensor3 \<Rightarrow> int \<Rightarrow> int \<Rightarrow> fl tensor3 \<Rightarrow> error + fl tensor3" where
  "copy_rows dst start len src =
     (let st = (if start < 0 then start + int (rows dst) else start)
      in if len < 0 \<or> st < 0 \<or> int (rows dst) < st + len then Inl TensorError
         else if \<not> (broadcastable (channels src) (channels dst) \<and>
                     broadcastable (rows src) (nat len) \<and>
                     broadcastable (cols src) (cols dst)) then Inl TensorError
         else Inr (dst\<lparr>entry := \<lambda>c y x.
                if nat st \<le> y \<and> y < nat st + nat len
                then entry src (bidx (channels src) c) (bidx (rows src) (y - nat st))
                       (bidx (cols src) x)
                else entry dst c y x\<rparr>))"

text \<open>
  A bound \<open>k\<close> of a Python slice over a dimension of size \<open>n\<close>: a negative bound counts
  from the end, and the result is clipped to \<open>0, \<dots>, n\<close>. The slice \<^verbatim>\<open>t[:, a:b, :]\<close> has
  the rows from \<open>a\<close> up to \<open>b\<close>, none when \<open>b \<le> a\<close>.
\<close>

definition py_bound :: "nat \<Rightarrow> int \<Rightarrow> nat" where
  "py_bound n k = (if k < 0 then nat (max 0 (int n + k)) else min (nat k) n)"

definition slice_rows :: "'a tensor3 \<Rightarrow> nat \<Rightarrow> nat \<Rightarrow> 'a tensor3" where
  "slice_rows t a b = t\<lparr>rows := b - a, entry := \<lambda>c y x. entry t c (a + y) x\<rparr>"

text \<open>
  \<^verbatim>\<open>sym_patch.index_select(1, inv_idx)\<close> with
  \<^verbatim>\<open>inv_idx = torch.arange(sym_patch.size(1) - 1, -1, -1)\<close>: the rows in reverse order.
\<close>

definition flip_rows :: "'a tensor3 \<Rightarrow> 'a tensor3" where
  "flip_rows t = t\<lparr>entry := \<lambda>c y x. entry t c (rows t - 1 - y) x\<rparr>"

text \<open>
  Entry \<open>x\<close> of \<^verbatim>\<open>img_aug[c, idx:idx + kernel_width, :].transpose(0, 1).mv(w)\<close>, where
  the slice starts at row \<open>a\<close>: the sum over \<open>j\<close> of \<open>w[j] * img_aug[c, a + j, x]\<close>.
\<close>

definition window_dot :: "fl tensor3 \<Rightarrow> nat \<Rightarrow> nat \<Rightarrow> fl list \<Rightarrow> nat \<Rightarrow> fl" where
  "window_dot aug c a w x =
     fsum (map (\<lambda>j. fmul (w ! j) (entry aug c (a + j) x)) [0..<length w])"

definition put_row :: "'a tensor3 \<Rightarrow> nat \<Rightarrow> nat \<Rightarrow> (nat \<Rightarrow> 'a) \<Rightarrow> 'a tensor3" where
  "put_row out c i v =
     out\<lparr>entry := \<lambda>c' y x. if c' = c \<and> y = i then v x else entry out c' y x\<rparr>"

text \<open>
  One statement of the loop body, for the channel \<open>c\<close> and the output row \<open>i\<close>:
  \<^verbatim>\<open>out_1[c, i, :] = img_aug[c, idx:idx + kernel_width, :].transpose(0, 1).mv(weights_H[i])\<close>
  with \<^verbatim>\<open>idx = int(indices_H[i][0])\<close> and \<^verbatim>\<open>kernel_width = weights_H.size(1)\<close>, the
  length of the row \<open>w\<close> of weights. A channel the tensors do not have is an
  \<^verbatim>\<open>IndexError\<close>; a slice with fewer rows than \<open>w\<close> has entries makes \<^verbatim>\<open>mv\<close> fail.
\<close>

definition filter_channel ::
  "fl tensor3 \<Rightarrow> int list \<Rightarrow> fl list \<Rightarrow> nat \<Rightarrow> nat \<Rightarrow> fl tensor3 \<Rightarrow> error + fl tensor3" where
  "filter_channel aug irow w i c out =
     (case irow of
        [] \<Rightarrow> Inl IndexError
      | idx # _ \<Rightarrow>
          if channels aug \<le> c then Inl IndexError
          else
            let a = py_bound (rows aug) idx;
                b = py_bound (rows aug) (idx + int (length w))
            in if b - a \<noteq> length w then Inl TensorError
               else Inr (put_row out c i (window_dot aug c a w)))"

text \<open>
  The loop \<^verbatim>\<open>for i in range(out_H)\<close>, over the rows of the index and weight matrices
  (there are \<open>out_H\<close> of each); its body writes the channels 0, 1 and 2, in this order.
\<close>

fun filter_rows ::
  "fl tensor3 \<Rightarrow> (int list \<times> fl list) list \<Rightarrow> nat \<Rightarrow> fl tensor3 \<Rightarrow> error + fl tensor3" where
  "filter_rows aug [] i out = Inr out"
| "filter_rows aug ((irow, w) # rest) i out =
     seq (filter_channel aug irow w i 0 out) (\<lambda>out0.
     seq (filter_channel aug irow w i 1 out0) (\<lambda>out1.
     seq (filter_channel aug irow w i 2 out1) (\<lambda>out2.
     filter_rows aug rest (Suc i) out2)))"

text \<open>
  The block \<^emph>\<open>process H dimension\<close> of \<^verbatim>\<open>imresize\<close>: the image is copied into the
  middle of a fresh buffer, its first \<open>sym_len_s\<close> rows, reversed, in front of it and its
  last \<open>sym_len_e\<close> rows, reversed, behind it (\<^verbatim>\<open>img[:, :sym_len_Hs, :]\<close> and
  \<^verbatim>\<open>img[:, -sym_len_He:, :]\<close>); then the loop fills a fresh output of \<open>out_len\<close> rows.
\<close>

definition resize_rows ::
  "(nat \<Rightarrow> nat \<Rightarrow> nat \<Rightarrow> fl) \<Rightarrow> (nat \<Rightarrow> nat \<Rightarrow> nat \<Rightarrow> fl) \<Rightarrow>
     fl list list \<times> int list list \<times> int \<times> int \<Rightarrow> int \<Rightarrow> fl tensor3 \<Rightarrow> error + fl tensor3" where
  "resize_rows junk_aug junk_out r out_len img =
     (case r of (weights, indices, sym_len_s, sym_len_e) \<Rightarrow>
        seq (FloatTensor junk_aug (channels img) (int (rows img) + sym_len_s + sym_len_e)
               (cols img)) (\<lambda>aug0.
        seq (copy_rows aug0 sym_len_s (int (rows img)) img) (\<lambda>aug1.
        seq (copy_rows aug1 0 sym_len_s
               (flip_rows (slice_rows img 0 (py_bound (rows img) sym_len_s)))) (\<lambda>aug2.
        seq (copy_rows aug2 (sym_len_s + int (rows img)) sym_len_e
               (flip_rows (slice_rows img (py_bound (rows img) (- sym_len_e)) (rows img))))
            (\<lambda>aug3.
        seq (FloatTensor junk_out (channels img) out_len (cols img)) (\<lambda>out.
        filter_rows aug3 (zip indices weights) 0 out))))))"

text \<open>
  The block \<^emph>\<open>process W dimension\<close> repeats the same statements on dimension 2
  (\<^verbatim>\<open>narrow(2, \<dots>)\<close>, \<^verbatim>\<open>index_select(2, \<dots>)\<close>, \<^verbatim>\<open>out_1_aug[c, :, idx:idx + kernel_width].mv\<close>):
  it is the block for the rows applied to the tensor with rows and columns exchanged.
\<close>

definition swap_axes :: "'a tensor3 \<Rightarrow> 'a tensor3" where
  "swap_axes t = \<lparr>channels = channels t, rows = cols t, cols = rows t,
                   entry = \<lambda>c y x. entry t c x y\<rparr>"

definition to_fl :: "real tensor3 \<Rightarrow> fl tensor3" where
  "to_fl t = \<lparr>channels = channels t, rows = rows t, cols = cols t,
               entry = \<lambda>c y x. Some (entry t c y x)\<rparr>"

text \<open>
  \<^verbatim>\<open>imresize(img, scale, antialiasing)\<close> on an image of finite numbers. The sizes of
  the output are \<^verbatim>\<open>math.ceil(in_H * scale)\<close> and \<^verbatim>\<open>math.ceil(in_W * scale)\<close>, the
  ceilings of products of Python numbers. The four buffers that are allocated hold
  \<open>junk 0\<close>, \<dots>, \<open>junk 3\<close> before they are written.
\<close>

definition imresize ::
  "arith \<Rightarrow> (nat \<Rightarrow> nat \<Rightarrow> nat \<Rightarrow> nat \<Rightarrow> fl) \<Rightarrow> real tensor3 \<Rightarrow> real \<Rightarrow> bool \<Rightarrow>
     error + fl tensor3" where
  "imresize ar junk img scale antialiasing =
     (let in_H = int (rows img);
          in_W = int (cols img);
          out_H = \<lceil>py_mul ar (real_of_int in_H) scale\<rceil>;
          out_W = \<lceil>py_mul ar (real_of_int in_W) scale\<rceil>
      in seq (calculate_weights_indices ar in_H out_H scale 4 antialiasing) (\<lambda>rh.
         seq (calculate_weights_indices ar in_W out_W scale 4 antialiasing) (\<lambda>rw.
         seq (resize_rows (junk 0) (junk 1) rh out_H (to_fl img)) (\<lambda>out_1.
         seq (resize_rows (junk 2) (junk 3) rw out_W (swap_axes out_1)) (\<lambda>out_2.
         Inr (swap_axes out_2))))))"

section \<open>FocalFrequencyLoss\<close>

text \<open>
  The configuration fixed by \<^verbatim>\<open>FocalFrequencyLoss.__init__\<close>.
\<close>

record ffl_config =
  loss_weight :: real
  alpha :: real
  patch_factor :: int
  ave_spectrum :: bool
  log_matrix :: bool
  batch_matrix :: bool

text \<open>
  The input of the loss is a tensor of shape \<open>(N, C, H, W)\<close>; the spectra and the weight
  matrices have the five dimensions \<open>(N, patch, C, h, w)\<close>. A spectrum holds a pair (real
  part, imaginary part) at each position, which is the trailing dimension of size 2 of the
  source. A tensor is its shape and its entries, read at the positions inside the shape.
\<close>

record tensor4 =
  size_n :: nat
  size_c :: nat
  size_h :: nat
  size_w :: nat
  pixel :: "nat \<Rightarrow> nat \<Rightarrow> nat \<Rightarrow> nat \<Rightarrow> real"

record 'a tensor5 =
  dim_n :: nat
  dim_p :: nat
  dim_c :: nat
  dim_h :: nat
  dim_w :: nat
  bin :: "nat \<Rightarrow> nat \<Rightarrow> nat \<Rightarrow> nat \<Rightarrow> nat \<Rightarrow> 'a"

definition positions :: "'a tensor5 \<Rightarrow> (nat \<times> nat \<times> nat \<times> nat \<times> nat) list" where
  "positions t =
     concat (map (\<lambda>n. concat (map (\<lambda>p. concat (map (\<lambda>c. concat (map (\<lambda>h.
       map (\<lambda>w. (n, p, c, h, w)) [0..<dim_w t]) [0..<dim_h t])) [0..<dim_c t]))
       [0..<dim_p t])) [0..<dim_n t])"

definition bin_at :: "'a tensor5 \<Rightarrow> nat \<times> nat \<times> nat \<times> nat \<times> nat \<Rightarrow> 'a" where
  "bin_at t q = (case q of (n, p, c, h, w) \<Rightarrow> bin t n p c h w)"

definition elements :: "'a tensor5 \<Rightarrow> 'a list" where
  "elements t = map (bin_at t) (positions t)"

definition map5 :: "('a \<Rightarrow> 'b) \<Rightarrow> 'a tensor5 \<Rightarrow> 'b tensor5" where
  "map5 f t = \<lparr>dim_n = dim_n t, dim_p = dim_p t, dim_c = dim_c t, dim_h = dim_h t,
               dim_w = dim_w t, bin = \<lambda>n p c h w. f (bin t n p c h w)\<rparr>"

text \<open>
  An operation on two tensors, entry by entry, with broadcasting: along each dimension the
  sizes agree or one of them is 1, and the tensor of size 1 is repeated; otherwise the
  tensor library raises.
\<close>

definition bc_ok :: "nat \<Rightarrow> nat \<Rightarrow> bool" where
  "bc_ok a b = (a = b \<or> a = 1 \<or> b = 1)"

definition bc_dim :: "nat \<Rightarrow> nat \<Rightarrow> nat" where
  "bc_dim a b = (if a = 1 then b else a)"

definition zip5 :: "('a \<Rightarrow> 'b \<Rightarrow> 'c) \<Rightarrow> 'a tensor5 \<Rightarrow> 'b tensor5 \<Rightarrow> error + 'c tensor5" where
  "zip5 f s t =
     (if bc_ok (dim_n s) (dim_n t) \<and> bc_ok (dim_p s) (dim_p t) \<and> bc_ok (dim_c s) (dim_c t) \<and>
         bc_ok (dim_h s) (dim_h t) \<and> bc_ok (dim_w s) (dim_w t)
      then Inr \<lparr>dim_n = bc_dim (dim_n s) (dim_n t), dim_p = bc_dim (dim_p s) (dim_p t),
                dim_c = bc_dim (dim_c s) (dim_c t), dim_h = bc_dim (dim_h s) (dim_h t),
                dim_w = bc_dim (dim_w s) (dim_w t),
                bin = \<lambda>n p c h w.
                  f (bin s (bidx (dim_n s) n) (bidx (dim_p s) p) (bidx (dim_c s) c)
                       (bidx (dim_h s) h) (bidx (dim_w s) w))
                    (bin t (bidx (dim_n t) n) (bidx (dim_p t) p) (bidx (dim_c t) c)
                       (bidx (dim_h t) h) (bidx (dim_w t) w))\<rparr>
      else Inl TensorError)"

text \<open>
  \<^verbatim>\<open>torch.fft.fft2(y, norm='ortho')\<close> on one slice of \<open>h\<close> rows and \<open>w\<close> columns is
  code of the tensor library; this is the orthonormal discrete Fourier transform of its
  documentation, with the real and the imaginary part of the bin \<open>(k, l)\<close> as a pair.
\<close>

definition fft2 :: "nat \<Rightarrow> nat \<Rightarrow> (nat \<Rightarrow> nat \<Rightarrow> real) \<Rightarrow> nat \<Rightarrow> nat \<Rightarrow> real \<times> real" where
  "fft2 h w f k l =
     ((\<Sum>y<h. \<Sum>x<w. f y x * cos (2 * pi * (real k * real y / real h + real l * real x / real w)))
        / sqrt (real (h * w)),
      (\<Sum>y<h. \<Sum>x<w. - (f y x * sin (2 * pi * (real k * real y / real h + real l * real x / real w))))
        / sqrt (real (h * w)))"

text \<open>
  \<^verbatim>\<open>tensor2freq\<close>. The remainder \<^verbatim>\<open>h % patch_factor\<close> raises \<^verbatim>\<open>ZeroDivisionError\<close>
  for the patch factor 0, before the assertion is decided; Python's remainder is 0 exactly
  when the patch factor divides. With a negative patch factor \<^verbatim>\<open>range(patch_factor)\<close>
  is empty and \<^verbatim>\<open>torch.stack\<close> of no patch raises; the transform of a slice without
  rows or without columns raises. The patch \<open>i * patch_factor + j\<close> holds the rows from
  \<open>i * patch_h\<close> and the columns from \<open>j * patch_w\<close>.
\<close>

definition tensor2freq :: "ffl_config \<Rightarrow> tensor4 \<Rightarrow> error + (real \<times> real) tensor5" where
  "tensor2freq cfg x =
     (let pf = patch_factor cfg; h = int (size_h x); w = int (size_w x)
      in if pf = 0 then Inl ZeroDivisionError
         else if \<not> (h mod pf = 0 \<and> w mod pf = 0) then Inl PatchFactorAssertion
         else if pf < 0 then Inl TensorError
         else
           let patch_h = nat (h div pf); patch_w = nat (w div pf)
           in if patch_h = 0 \<or> patch_w = 0 then Inl TensorError
              else Inr \<lparr>dim_n = size_n x, dim_p = nat (pf * pf), dim_c = size_c x,
                        dim_h = patch_h, dim_w = patch_w,
                        bin = \<lambda>n p c k l.
                          fft2 patch_h patch_w
                            (\<lambda>yy xx. pixel x n c ((p div nat pf) * patch_h + yy)
                                        ((p mod nat pf) * patch_w + xx)) k l\<rparr>)"

text \<open>
  The entries of the spectrum weight matrix while it is computed are not negative and may
  be infinite or NaN: a zero distance raised to a negative power is infinite, and
  \<open>0 / 0\<close> and \<open>\<infinity> / \<infinity>\<close> are NaN.
\<close>

datatype ext = Fin real | Inf | NaN

text \<open>\<^verbatim>\<open>torch.sqrt(re ** 2 + im ** 2) ** alpha\<close>; the power of the base 0 is 0, 1 or infinite.\<close>

definition fpow :: "real \<Rightarrow> real \<Rightarrow> ext" where
  "fpow b a =
     (if b = 0 then (if 0 < a then Fin 0 else if a = 0 then Fin 1 else Inf)
      else Fin (b powr a))"

definition distance_power :: "real \<Rightarrow> real \<times> real \<Rightarrow> ext" where
  "distance_power a d = fpow (sqrt ((fst d) ^ 2 + (snd d) ^ 2)) a"

text \<open>\<^verbatim>\<open>torch.log(matrix_tmp + 1.0)\<close>.\<close>

definition flog1p :: "ext \<Rightarrow> ext" where
  "flog1p v = (case v of Fin x \<Rightarrow> Fin (ln (x + 1)) | Inf \<Rightarrow> Inf | NaN \<Rightarrow> NaN)"

text \<open>The maximum of a nonempty list of entries: NaN if one is NaN, else infinite if one is.\<close>

definition emax :: "ext list \<Rightarrow> ext" where
  "emax vs =
     (if NaN \<in> set vs then NaN
      else if Inf \<in> set vs then Inf
      else Fin (Max (set (map (\<lambda>v. case v of Fin x \<Rightarrow> x | _ \<Rightarrow> 0) vs))))"

text \<open>The division of an entry by a maximum.\<close>

definition ediv :: "ext \<Rightarrow> ext \<Rightarrow> ext" where
  "ediv v m =
     (case (v, m) of
        (Fin x, Fin y) \<Rightarrow>
          (if y = 0 then (if x = 0 then NaN else Inf) else Fin (x / y))
      | (Fin x, Inf) \<Rightarrow> Fin 0
      | (Inf, Fin y) \<Rightarrow> Inf
      | (Inf, Inf) \<Rightarrow> NaN
      | _ \<Rightarrow> NaN)"

text \<open>
  \<^verbatim>\<open>matrix_tmp[torch.isnan(matrix_tmp)] = 0.0\<close> followed by
  \<^verbatim>\<open>torch.clamp(matrix_tmp, min=0.0, max=1.0)\<close>: the entry is a finite number afterwards.
\<close>

definition replace_nan_clamp :: "ext \<Rightarrow> real" where
  "replace_nan_clamp v =
     (case (if v = NaN then Fin 0 else v) of
        Fin x \<Rightarrow> min (max x 0) 1
      | Inf \<Rightarrow> 1
      | NaN \<Rightarrow> 0)"

text \<open>
  The division by the maximum. With \<^verbatim>\<open>batch_matrix\<close> it is the maximum of the whole
  tensor, which raises on a tensor without entries; otherwise it is, for each sample, patch
  and channel, the maximum over the bins, \<^verbatim>\<open>max(-1).values.max(-1).values\<close>, which raises
  when a reduced dimension has size 0.
\<close>

definition normalise :: "bool \<Rightarrow> ext tensor5 \<Rightarrow> error + ext tensor5" where
  "normalise batch t =
     (if batch then
        (if elements t = [] then Inl TensorError
         else Inr (map5 (\<lambda>v. ediv v (emax (elements t))) t))
      else
        (if dim_w t = 0 \<or> dim_h t = 0 then Inl TensorError
         else Inr (t\<lparr>bin := \<lambda>n p c h w.
                ediv (bin t n p c h w)
                  (emax (concat (map (\<lambda>k. map (\<lambda>l. bin t n p c k l) [0..<dim_w t])
                                   [0..<dim_h t])))\<rparr>)))"

text \<open>\<^verbatim>\<open>recon_freq - real_freq\<close> and \<^verbatim>\<open>tmp[..., 0] + tmp[..., 1]\<close> of its square.\<close>

definition freq_diff ::
  "(real \<times> real) tensor5 \<Rightarrow> (real \<times> real) tensor5 \<Rightarrow> error + (real \<times> real) tensor5" where
  "freq_diff recon_freq real_freq =
     zip5 (\<lambda>a b. (fst a - fst b, snd a - snd b)) recon_freq real_freq"

definition squared_norm :: "real \<times> real \<Rightarrow> real" where
  "squared_norm d = (fst d) ^ 2 + (snd d) ^ 2"

text \<open>The weight matrix computed online (the \<^verbatim>\<open>else\<close> branch of \<^verbatim>\<open>loss_formulation\<close>).\<close>

definition online_matrix ::
  "ffl_config \<Rightarrow> (real \<times> real) tensor5 \<Rightarrow> (real \<times> real) tensor5 \<Rightarrow> error + real tensor5" where
  "online_matrix cfg recon_freq real_freq =
     seq (freq_diff recon_freq real_freq) (\<lambda>d.
       let matrix_tmp = map5 (distance_power (alpha cfg)) d;
           matrix_tmp = (if log_matrix cfg then map5 flog1p matrix_tmp else matrix_tmp)
       in seq (normalise (batch_matrix cfg) matrix_tmp) (\<lambda>m.
            Inr (map5 replace_nan_clamp m)))"

text \<open>
  The assertion on the weight matrix: \<^verbatim>\<open>min()\<close> of a tensor without entries raises in
  the tensor library; the message of the assertion carries the minimum and the maximum.
\<close>

definition check_range :: "real tensor5 \<Rightarrow> error + real tensor5" where
  "check_range weight_matrix =
     (if elements weight_matrix = [] then Inl TensorError
      else if 0 \<le> Min (set (elements weight_matrix)) \<and> Max (set (elements weight_matrix)) \<le> 1
      then Inr weight_matrix
      else Inl (WeightRangeAssertion (Min (set (elements weight_matrix)))
                  (Max (set (elements weight_matrix)))))"

text \<open>\<^verbatim>\<open>torch.mean\<close>: NaN for a tensor without entries.\<close>

definition mean5 :: "real tensor5 \<Rightarrow> fl" where
  "mean5 t = fdiv (sum_list (elements t)) (real (length (elements t)))"

text \<open>
  \<^verbatim>\<open>loss_formulation(recon_freq, real_freq, matrix)\<close>; a matrix that is given is a tensor
  of five dimensions with finite entries.
\<close>

definition loss_formulation ::
  "ffl_config \<Rightarrow> (real \<times> real) tensor5 \<Rightarrow> (real \<times> real) tensor5 \<Rightarrow> real tensor5 option \<Rightarrow>
     error + fl" where
  "loss_formulation cfg recon_freq real_freq matrix =
     seq (case matrix of
            Some m \<Rightarrow> Inr m
          | None \<Rightarrow> online_matrix cfg recon_freq real_freq) (\<lambda>weight_matrix.
     seq (check_range weight_matrix) (\<lambda>weight_matrix.
     seq (freq_diff recon_freq real_freq) (\<lambda>d.
     seq (zip5 (\<lambda>a b. a * b) weight_matrix (map5 squared_norm d)) (\<lambda>loss.
     Inr (mean5 loss)))))"

text \<open>
  \<^verbatim>\<open>torch.mean(freq, 0, keepdim=True)\<close>, for a batch that is not empty.
\<close>

definition batch_mean :: "(real \<times> real) tensor5 \<Rightarrow> (real \<times> real) tensor5" where
  "batch_mean t =
     t\<lparr>dim_n := 1,
       bin := \<lambda>n p c h w.
         ((\<Sum>i<dim_n t. fst (bin t i p c h w)) / real (dim_n t),
          (\<Sum>i<dim_n t. snd (bin t i p c h w)) / real (dim_n t))\<rparr>"

text \<open>
  \<^verbatim>\<open>forward(pred, target, matrix)\<close>. The mean of the spectra over an empty batch is NaN
  at every bin; the loss is then NaN when the spectra have a bin, and the reductions of
  \<^verbatim>\<open>loss_formulation\<close> raise when they have none.
\<close>

definition forward ::
  "ffl_config \<Rightarrow> tensor4 \<Rightarrow> tensor4 \<Rightarrow> real tensor5 option \<Rightarrow> error + fl" where
  "forward cfg pred target matrix =
     seq (tensor2freq cfg pred) (\<lambda>pred_freq.
     seq (tensor2freq cfg target) (\<lambda>target_freq.
       if ave_spectrum cfg \<and> (dim_n pred_freq = 0 \<or> dim_n target_freq = 0)
       then (if elements (batch_mean pred_freq) = [] \<or> elements (batch_mean target_freq) = []
             then Inl TensorError else Inr None)
       else
         seq (if ave_spectrum cfg
              then loss_formulation cfg (batch_mean pred_freq) (batch_mean target_freq) matrix
              else loss_formulation cfg pred_freq target_freq matrix) (\<lambda>l.
         Inr (fmul l (Some (loss_weight cfg))))))"

section \<open>The spectral angle loss\<close>

text \<open>
  \<^verbatim>\<open>torch.acos\<close>: the result is NaN for an argument outside \<open>[-1, 1]\<close>.
\<close>

definition acos :: "real \<Rightarrow> fl" where
  "acos v = (if - 1 \<le> v \<and> v \<le> 1 then Some (arccos v) else None)"

text \<open>
  \<^verbatim>\<open>torch.mean\<close> of a tensor of floats: NaN when an entry is NaN and when the tensor has
  no entry.
\<close>

definition mean_all :: "fl list \<Rightarrow> fl" where
  "mean_all vs = (case fsum vs of None \<Rightarrow> None | Some s \<Rightarrow> fdiv s (real (length vs)))"

text \<open>
  The vector along dimension 1 of a tensor of shape \<open>(N, C, H, W)\<close>, broadcast to \<open>C\<close>
  channels, at the sample \<open>n\<close>, the row \<open>h\<close> and the column \<open>w\<close>.
\<close>

definition channel_vector :: "nat \<Rightarrow> tensor4 \<Rightarrow> nat \<Rightarrow> nat \<Rightarrow> nat \<Rightarrow> real list" where
  "channel_vector C x n h w =
     map (\<lambda>c. pixel x (bidx (size_n x) n) (bidx (size_c x) c) (bidx (size_h x) h)
                  (bidx (size_w x) w)) [0..<C]"

text \<open>
  \<^verbatim>\<open>torch.cosine_similarity(x, y, dim=1)\<close> is a routine of the tensor library, computed
  in floating point. The float that it returns for two vectors is the parameter
  \<open>cos_sim\<close>; the routine broadcasts its arguments to a common shape and raises when
  there is none. \<open>similarities\<close> is the tensor that it returns, one entry for each sample,
  row and column.
\<close>

definition similarities ::
  "(real list \<Rightarrow> real list \<Rightarrow> real) \<Rightarrow> tensor4 \<Rightarrow> tensor4 \<Rightarrow> error + real list" where
  "similarities cos_sim x y =
     (if bc_ok (size_n x) (size_n y) \<and> bc_ok (size_c x) (size_c y) \<and>
         bc_ok (size_h x) (size_h y) \<and> bc_ok (size_w x) (size_w y)
      then
        let N = bc_dim (size_n x) (size_n y); C = bc_dim (size_c x) (size_c y);
            H = bc_dim (size_h x) (size_h y); W = bc_dim (size_w x) (size_w y)
        in Inr (concat (map (\<lambda>n. concat (map (\<lambda>h. map (\<lambda>w.
                  cos_sim (channel_vector C x n h w) (channel_vector C y n h w))
                  [0..<W]) [0..<H])) [0..<N]))
      else Inl TensorError)"

text \<open>
  \<^verbatim>\<open>reconstruction_SADloss.forward(x, y)\<close>: \<^verbatim>\<open>torch.acos\<close> is applied to the tensor
  that \<^verbatim>\<open>torch.cosine_similarity\<close> returns, and the result is averaged.
\<close>

definition reconstruction_SADloss_forward ::
  "(real list \<Rightarrow> real list \<Rightarrow> real) \<Rightarrow> tensor4 \<Rightarrow> tensor4 \<Rightarrow> error + fl" where
  "reconstruction_SADloss_forward cos_sim x y =
     seq (similarities cos_sim x y) (\<lambda>s.
       let abundance_loss = map acos s;
           abundance_loss = mean_all abundance_loss
       in Inr abundance_loss)"

section \<open>Notions used to state the properties of the resampling weights\<close>

text \<open>
  None of the following is code of the repository. \<open>exact\<close> is the arithmetic without
  rounding: every operation returns the exact result. \<open>cubic_lower\<close> is a step function
  below the kernel; \<open>kernel_support\<close> and \<open>taps\<close> are the kernel width and the number
  \<open>P\<close> of candidate taps that \<^verbatim>\<open>calculate_weights_indices\<close> computes in exact
  arithmetic when it is called with the kernel width 4, as \<^verbatim>\<open>imresize\<close> calls it;
  \<open>full_row\<close> is the normalised row of weights of the output pixel at input coordinate
  \<open>v\<close>, and \<open>pruned_row\<close> is that row without its first and its last entry.
\<close>

definition exact :: arith where
  "exact =
     \<lparr>py_mul = (\<lambda>a b. a * b), py_div = (\<lambda>a b. a / b), py_sub = (\<lambda>a b. a - b),
      t_add = (\<lambda>a b. a + b), t_sub = (\<lambda>a b. a - b), t_mul = (\<lambda>a b. a * b),
      t_div = (\<lambda>a b. a / b), t_pow = (\<lambda>a n. a ^ n), t_sum = sum_list\<rparr>"

definition cubic_lower :: "real \<Rightarrow> real" where
  "cubic_lower x =
     (if \<bar>x\<bar> \<le> 1 / 2 then 9 / 16 else 0) - (if 1 < \<bar>x\<bar> \<and> \<bar>x\<bar> < 2 then 1 / 8 else 0)"

definition kernel_support :: "real \<Rightarrow> bool \<Rightarrow> real" where
  "kernel_support scale antialiasing = (if scale < 1 \<and> antialiasing then 4 / scale else 4)"

definition taps :: "real \<Rightarrow> bool \<Rightarrow> nat" where
  "taps scale antialiasing = nat (\<lceil>kernel_support scale antialiasing\<rceil> + 2)"

definition full_row :: "real \<Rightarrow> bool \<Rightarrow> real \<Rightarrow> fl list" where
  "full_row scale aa v =
     weight_row exact scale aa v
       (index_row (taps scale aa) (left_tap exact (kernel_support scale aa) v))"

definition pruned_row :: "real \<Rightarrow> bool \<Rightarrow> real \<Rightarrow> fl list" where
  "pruned_row scale aa v = take (taps scale aa - 2) (drop 1 (full_row scale aa v))"

section \<open>Notions used to state the properties of the resized image\<close>

text \<open>
  None of the following is code of the repository. \<open>pad_fits n s e\<close> says that the two
  mirrored patches of \<open>s\<close> and \<open>e\<close> rows can be copied into the extended buffer of an
  axis of \<open>n\<close> pixels: the lengths are not negative and each patch, cut from the image by
  a Python slice, has the length of its destination or a single row, which is broadcast.
  \<open>ext_entry img s e\<close> gives the entries of the extended buffer: \<open>s\<close> mirrored rows, the
  \<open>n\<close> rows of the image, \<open>e\<close> mirrored rows.
\<close>

definition pad_fits :: "nat \<Rightarrow> int \<Rightarrow> int \<Rightarrow> bool" where
  "pad_fits n s e =
     (0 \<le> s \<and> 0 \<le> e \<and> broadcastable (py_bound n s) (nat s) \<and>
      broadcastable (n - py_bound n (- e)) (nat e))"

definition ext_entry :: "'a tensor3 \<Rightarrow> nat \<Rightarrow> nat \<Rightarrow> nat \<Rightarrow> nat \<Rightarrow> nat \<Rightarrow> 'a" where
  "ext_entry img s e c y x =
     (let n = rows img
      in if y < s then entry img c (min (s - 1 - y) (n - 1)) x
         else if y < s + n then entry img c (y - s) x
         else entry img c (n - 1 - min (y - s - n) (n - 1)) x)"

text \<open>
  Inputs for concrete evaluations: an image with \<open>c\<close> channels, \<open>h\<close> rows and \<open>w\<close> columns
  whose entries differ from pixel to pixel, and memory that holds NaN wherever a buffer is
  allocated.
\<close>

definition test_image :: "nat \<Rightarrow> nat \<Rightarrow> nat \<Rightarrow> real tensor3" where
  "test_image c h w =
     \<lparr>channels = c, rows = h, cols = w, entry = \<lambda>k y x. real (4 * k + 2 * y + x) / 16\<rparr>"

definition nan_memory :: "nat \<Rightarrow> nat \<Rightarrow> nat \<Rightarrow> nat \<Rightarrow> fl" where
  "nan_memory b c y x = None"

section \<open>Notions used to state the properties of the focal frequency loss\<close>

text \<open>
  \<open>inside t\<close> holds of the positions inside the shape of \<open>t\<close>. \<open>default_config\<close> is the
  configuration of \<^verbatim>\<open>FocalFrequencyLoss()\<close>, the defaults of \<^verbatim>\<open>__init__\<close>. The other
  constants are inputs for concrete evaluations: a batch of images whose entries differ
  from pixel to pixel, a spectrum with a single bin and a weight matrix with a single
  entry.
\<close>

definition inside :: "'a tensor5 \<Rightarrow> nat \<Rightarrow> nat \<Rightarrow> nat \<Rightarrow> nat \<Rightarrow> nat \<Rightarrow> bool" where
  "inside t n p c h w =
     (n < dim_n t \<and> p < dim_p t \<and> c < dim_c t \<and> h < dim_h t \<and> w < dim_w t)"

definition default_config :: ffl_config where
  "default_config =
     \<lparr>loss_weight = 1, alpha = 1, patch_factor = 1, ave_spectrum = False,
      log_matrix = False, batch_matrix = False\<rparr>"

definition test_batch :: "nat \<Rightarrow> nat \<Rightarrow> nat \<Rightarrow> nat \<Rightarrow> tensor4" where
  "test_batch n c h w =
     \<lparr>size_n = n, size_c = c, size_h = h, size_w = w,
      pixel = \<lambda>i k y x. real (8 * i + 4 * k + 2 * y + x) / 64\<rparr>"

definition single_bin :: "'a \<Rightarrow> 'a tensor5" where
  "single_bin v =
     \<lparr>dim_n = 1, dim_p = 1, dim_c = 1, dim_h = 1, dim_w = 1, bin = \<lambda>n p c h w. v\<rparr>"

section \<open>Notions used to state the properties of the spectral angle loss\<close>

text \<open>
  \<open>cosine_similarity\<close> is the value that the documentation of the tensor library gives
  for \<^verbatim>\<open>torch.cosine_similarity\<close>, \<open>x \<cdot> y / max (\<parallel>x\<parallel> * \<parallel>y\<parallel>, eps)\<close> with the default
  \<open>eps = 1e-8\<close>, in exact arithmetic. \<open>overshoot\<close> is a result that exceeds this value
  by \<open>2 ^ -23\<close>, the distance from 1 to the next number of single precision.
\<close>

definition dot :: "real list \<Rightarrow> real list \<Rightarrow> real" where
  "dot a b = sum_list (map (\<lambda>(u, v). u * v) (zip a b))"

definition norm2 :: "real list \<Rightarrow> real" where
  "norm2 a = sqrt (sum_list (map (\<lambda>u. u ^ 2) a))"

definition cosine_similarity :: "real list \<Rightarrow> real list \<Rightarrow> real" where
  "cosine_similarity a b = dot a b / max (norm2 a * norm2 b) (1 / 10 ^ 8)"

definition overshoot :: "real list \<Rightarrow> real list \<Rightarrow> real" where
  "overshoot a b = cosine_similarity a b + 1 / 2 ^ 23"

text \<open>A batch of one pixel with three channels.\<close>

definition one_pixel :: tensor4 where
  "one_pixel = test_batch 1 3 1 1"

section \<open>Properties of the patch grid\<close>

lemma block_num_Inr:
  "ps - p * 2 \<noteq> 0 \<Longrightarrow> block_num l p ps = Inr (- ((- (l - p * 2)) div (ps - p * 2)))"
  unfolding block_num_def ceiling_divide_eq_div by simp

lemma ceil_div_props:
  fixes a d :: int
  assumes "0 < d"
  shows "(- ((- a) div d) - 1) * d < a" "a \<le> (- ((- a) div d)) * d"
proof -
  have m: "(- a) = d * ((- a) div d) + (- a) mod d" by simp
  have r: "0 \<le> (- a) mod d" "(- a) mod d < d" using assms by simp_all
  have e1: "(- ((- a) div d) - 1) * d = - (d * ((- a) div d)) - d" by (simp add: algebra_simps)
  show "(- ((- a) div d) - 1) * d < a" unfolding e1 using m r by linarith
  have e2: "(- ((- a) div d)) * d = - (d * ((- a) div d))" by (simp add: algebra_simps)
  show "a \<le> (- ((- a) div d)) * d" unfolding e2 using m r by linarith
qed

lemma tile_offset_bounds:
  assumes d: "2 * p < ps" and l: "ps \<le> l"
    and n: "n = - ((- (l - p * 2)) div (ps - p * 2))"
    and i: "0 \<le> i" "i \<le> n - 1"
  shows "0 \<le> tile_offset i n l p ps \<and> tile_offset i n l p ps \<le> l - ps"
proof -
  define d where "d = ps - p * 2"
  define a where "a = l - p * 2"
  have dpos: "0 < d" using d by (simp add: d_def)
  have nd: "n = - ((- a) div d)" using n by (simp add: a_def d_def)
  have lt: "(n - 1) * d < a" using ceil_div_props(1)[OF dpos, of a] nd by simp
  show ?thesis
  proof (cases "i = 0 \<or> i = n - 1")
    case True
    then show ?thesis using l by (auto simp: tile_offset_def)
  next
    case False
    then have i2: "1 \<le> i" "i \<le> n - 2" using i by auto
    have "i * d \<le> (n - 2) * d" using i2 dpos by (simp add: mult_right_mono)
    also have "\<dots> = (n - 1) * d - d" by (simp add: algebra_simps)
    also have "\<dots> < a - d" using lt by simp
    finally have "i * d < l - ps" by (simp add: a_def d_def)
    moreover have "0 \<le> i * d" using i2 dpos by simp
    ultimately show ?thesis using False by (simp add: tile_offset_def d_def mult.commute)
  qed
qed

text \<open>
  Claim C10. Whenever \<open>2 * padding < patchSize\<close> and \<open>patchSize \<le> min H W\<close>,
  \<^verbatim>\<open>next_patch\<close> raises nothing and yields at least one descriptor, and every
  descriptor \<open>(h, w, \<dots>)\<close> it yields satisfies \<open>0 \<le> h \<le> H - patchSize\<close> and
  \<open>0 \<le> w \<le> W - patchSize\<close>: every planned patch, the middle ones included, lies inside
  the image.
\<close>

theorem next_patch_within_image:
  assumes "2 * p < ps" and "ps \<le> min h w"
  shows "\<exists>ds. next_patch (PatchGenerator_init h w (Some ps) p) = Inr ds \<and> ds \<noteq> [] \<and>
           (\<forall>(y, x, t, l, b, r) \<in> set ds. 0 \<le> y \<and> y \<le> h - ps \<and> 0 \<le> x \<and> x \<le> w - ps)"
proof -
  let ?g = "PatchGenerator_init h w (Some ps) p"
  define hn where "hn = - ((- (h - p * 2)) div (ps - p * 2))"
  define wn where "wn = - ((- (w - p * 2)) div (ps - p * 2))"
  have nz: "ps - p * 2 \<noteq> 0" and dpos: "0 < ps - p * 2" using assms(1) by simp_all
  have g: "H ?g = h" "W ?g = w" "padding ?g = p" "patch_size ?g = ps"
    by (simp_all add: PatchGenerator_init_def calc_patch_size_def)
  have np: "next_patch ?g = Inr (tiles ?g hn wn)"
    by (simp add: next_patch_def g block_num_Inr [OF nz] hn_def wn_def)
  have hpos: "1 \<le> hn"
    using ceil_div_props(2) [OF dpos, of "h - p * 2"] assms dpos
    unfolding hn_def [symmetric]
    by (smt (verit) mult_nonneg_nonpos mult.commute mult_le_0_iff)
  have wpos: "1 \<le> wn"
    using ceil_div_props(2) [OF dpos, of "w - p * 2"] assms dpos
    unfolding wn_def [symmetric]
    by (smt (verit) mult_nonneg_nonpos mult.commute mult_le_0_iff)
  have ne: "tiles ?g hn wn \<noteq> []"
    using hpos wpos by (auto simp: tiles_def upto.simps)
  have "0 \<le> y \<and> y \<le> h - ps \<and> 0 \<le> x \<and> x \<le> w - ps"
    if "(y, x, t, l, b, r) \<in> set (tiles ?g hn wn)" for y x t l b r
  proof -
    from that obtain i j where ij: "0 \<le> i" "i \<le> hn - 1" "0 \<le> j" "j \<le> wn - 1"
      and y: "y = tile_offset i hn h p ps" and x: "x = tile_offset j wn w p ps"
      by (auto simp: tiles_def g)
    show ?thesis
      using tile_offset_bounds [OF assms(1) _ hn_def ij(1,2)]
        tile_offset_bounds [OF assms(1) _ wn_def ij(3,4)] assms(2)
      by (simp add: x y)
  qed
  then show ?thesis using np ne by auto
qed

theorem next_patch_within_image_witness:
  "(2 * 16 < (48::int)) \<and> (48::int) \<le> min 64 64 \<and>
   next_patch (PatchGenerator_init 64 64 (Some 48) 16) =
     Inr [(0, 0, 0, 0, 16, 16), (0, 16, 0, 16, 16, 0), (16, 0, 16, 0, 0, 16), (16, 16, 16, 16, 0, 0)] \<and>
   (\<exists>ds. next_patch (PatchGenerator_init 64 64 (Some 48) 16) = Inr ds \<and> ds \<noteq> [] \<and>
           (\<forall>(y, x, t, l, b, r) \<in> set ds. 0 \<le> y \<and> y \<le> 64 - 48 \<and> 0 \<le> x \<and> x \<le> 64 - 48))"
  using next_patch_within_image [of 16 48 64 64]
  by (simp add: next_patch_def PatchGenerator_init_def calc_patch_size_def block_num_def
      tiles_def tile_offset_def tile_padding_def upto.simps)

text \<open>
  Claim C3. A descriptor carries the nominal padding except on a side that touches an
  image edge, and a single tile along an axis, which is first and last at once, has both
  paddings of that axis 0. The code clears the end padding of the last tile in the
  \<^verbatim>\<open>elif\<close> branch of \<^verbatim>\<open>if i == 0\<close>, so a single tile keeps it: for a 64 by 64
  image covered by one 64 by 64 patch with padding 16 the only descriptor has bottom and
  right padding 16, not 0.
\<close>

theorem next_patch_single_tile_keeps_end_padding:
  "next_patch (PatchGenerator_init 64 64 (Some 64) 16) = Inr [(0, 0, 0, 0, 16, 16)]"
  by (simp add: next_patch_def PatchGenerator_init_def calc_patch_size_def block_num_def
      tiles_def tile_offset_def tile_padding_def)

section \<open>The functions in exact arithmetic\<close>

lemma exact_ops [simp]:
  "py_mul exact a b = a * b" "py_div exact a b = a / b" "py_sub exact a b = a - b"
  "t_add exact a b = a + b" "t_sub exact a b = a - b" "t_mul exact a b = a * b"
  "t_div exact a b = a / b" "t_pow exact a n = a ^ n" "t_sum exact ws = sum_list ws"
  by (simp_all add: exact_def)

lemma cubic_exact:
  "cubic exact x =
     (let absx = \<bar>x\<bar>; absx2 = absx ^ 2; absx3 = absx ^ 3
      in (1.5 * absx3 - 2.5 * absx2 + 1) * (if absx \<le> 1 then 1 else 0) +
         (- 0.5 * absx3 + 2.5 * absx2 - 4 * absx + 2) *
           (if 1 < absx \<and> absx \<le> 2 then 1 else 0))"
  by (simp add: cubic_def Let_def)

lemma widen_kernel_exact:
  "widen_kernel exact scale kernel_width antialiasing =
     (if scale < 1 \<and> antialiasing
      then (if scale = 0 then Inl ZeroDivisionError else Inr (kernel_width / scale))
      else Inr kernel_width)"
  by (simp add: widen_kernel_def)

lemma in_coord_exact: "in_coord exact scale x = x / scale + 0.5 * (1 - 1 / scale)"
  by (simp add: in_coord_def)

lemma left_tap_exact: "left_tap exact kernel_width u = \<lfloor>u - kernel_width / 2\<rfloor>"
  by (simp add: left_tap_def)

lemma kernel_weight_exact:
  "kernel_weight exact scale antialiasing u i =
     (if scale < 1 \<and> antialiasing
      then scale * cubic exact ((u - real_of_int i) * scale)
      else cubic exact (u - real_of_int i))"
  by (simp add: kernel_weight_def)

lemma normalize_row_exact: "normalize_row exact ws = map (\<lambda>w. fdiv w (sum_list ws)) ws"
  by (simp add: normalize_row_def fdiv_def)

lemmas weight_row_exact = weight_row_def [of exact]

lemmas calculate_weights_indices_exact = calculate_weights_indices_def [of exact]

lemma imresize_exact:
  "imresize exact junk img scale antialiasing =
     (let in_H = int (rows img);
          in_W = int (cols img);
          out_H = \<lceil>real_of_int in_H * scale\<rceil>;
          out_W = \<lceil>real_of_int in_W * scale\<rceil>
      in seq (calculate_weights_indices exact in_H out_H scale 4 antialiasing) (\<lambda>rh.
         seq (calculate_weights_indices exact in_W out_W scale 4 antialiasing) (\<lambda>rw.
         seq (resize_rows (junk 0) (junk 1) rh out_H (to_fl img)) (\<lambda>out_1.
         seq (resize_rows (junk 2) (junk 3) rw out_W (swap_axes out_1)) (\<lambda>out_2.
         Inr (swap_axes out_2))))))"
  by (simp add: imresize_def)

section \<open>Properties of the cubic kernel\<close>

lemma cubic_inner: "\<bar>x\<bar> \<le> 1 \<Longrightarrow> cubic exact x = 1.5 * \<bar>x\<bar> ^ 3 - 2.5 * \<bar>x\<bar> ^ 2 + 1"
  by (simp add: cubic_exact Let_def)

lemma cubic_outer:
  "1 < \<bar>x\<bar> \<Longrightarrow> \<bar>x\<bar> \<le> 2 \<Longrightarrow> cubic exact x = - 0.5 * \<bar>x\<bar> ^ 3 + 2.5 * \<bar>x\<bar> ^ 2 - 4 * \<bar>x\<bar> + 2"
  by (simp add: cubic_exact Let_def)

lemma cubic_far: "2 \<le> \<bar>x\<bar> \<Longrightarrow> cubic exact x = 0"
  by (cases "\<bar>x\<bar> = 2") (auto simp: cubic_exact Let_def)

lemma cubic_abs: "cubic exact \<bar>x\<bar> = cubic exact x"
  by (simp add: cubic_exact)

lemma cubic_inner_nonneg: assumes "\<bar>x\<bar> \<le> 1" shows "0 \<le> cubic exact x"
proof -
  define y where "y = \<bar>x\<bar>"
  have y: "0 \<le> y" "y \<le> 1" using assms by (simp_all add: y_def)
  have "1.5 * y ^ 3 - 2.5 * y ^ 2 + 1 = (1 - y) * (1 + y - 1.5 * y ^ 2)"
    by (simp add: field_simps power2_eq_square power3_eq_cube)
  moreover have "0 \<le> 1 + y - 1.5 * y ^ 2"
  proof -
    have "y ^ 2 \<le> y" using y by (simp add: power2_eq_square mult_left_le)
    then show ?thesis using y by simp
  qed
  ultimately have "0 \<le> 1.5 * y ^ 3 - 2.5 * y ^ 2 + 1" using y by simp
  then show ?thesis using cubic_inner [OF assms] by (simp add: y_def)
qed

lemma cubic_centre: assumes "\<bar>x\<bar> \<le> 1 / 2" shows "9 / 16 \<le> cubic exact x"
proof -
  define y where "y = \<bar>x\<bar>"
  have y: "0 \<le> y" "y \<le> 1 / 2" using assms by (simp_all add: y_def)
  have e: "1.5 * y ^ 3 - 2.5 * y ^ 2 + 1 - 9 / 16 = (1 / 2 - y) * (7 / 8 + 7 / 4 * y - 3 / 2 * y ^ 2)"
    by (simp add: field_simps power2_eq_square power3_eq_cube)
  have "y ^ 2 \<le> y" using y by (simp add: power2_eq_square mult_left_le)
  then have "0 \<le> 7 / 8 + 7 / 4 * y - 3 / 2 * y ^ 2" using y by simp
  then have "0 \<le> (1 / 2 - y) * (7 / 8 + 7 / 4 * y - 3 / 2 * y ^ 2)" using y by simp
  then have "9 / 16 \<le> 1.5 * y ^ 3 - 2.5 * y ^ 2 + 1" using e by linarith
  moreover have "\<bar>x\<bar> \<le> 1" using assms by simp
  ultimately show ?thesis using cubic_inner [of x] by (simp add: y_def)
qed

lemma cubic_lobe: assumes "1 < \<bar>x\<bar>" "\<bar>x\<bar> \<le> 2" shows "- (1 / 8) \<le> cubic exact x"
proof -
  define y where "y = \<bar>x\<bar>"
  define v where "v = y - 1"
  have v: "0 \<le> v" "v \<le> 1" using assms by (simp_all add: v_def y_def)
  have "- 0.5 * y ^ 3 + 2.5 * y ^ 2 - 4 * y + 2 = - (1 / 2) * (v * (1 - v)) * (1 - v)"
    by (simp add: v_def field_simps power2_eq_square power3_eq_cube)
  then have e: "- 0.5 * \<bar>x\<bar> ^ 3 + 2.5 * \<bar>x\<bar> ^ 2 - 4 * \<bar>x\<bar> + 2 = - (1 / 2) * (v * (1 - v)) * (1 - v)"
    unfolding y_def .
  have "v * (1 - v) \<le> 1 / 4"
  proof -
    have "0 \<le> (v - 1 / 2) ^ 2" by simp
    then show ?thesis by (simp add: algebra_simps power2_eq_square)
  qed
  moreover have "0 \<le> v * (1 - v)" using v by simp
  ultimately have "(v * (1 - v)) * (1 - v) \<le> 1 / 4 * 1"
    using v by (intro mult_mono) simp_all
  then show ?thesis using cubic_outer [OF assms] e by simp
qed

lemma cubic_lower: "cubic_lower x \<le> cubic exact x"
proof -
  consider "\<bar>x\<bar> \<le> 1 / 2" | "1 / 2 < \<bar>x\<bar>" "\<bar>x\<bar> \<le> 1" | "1 < \<bar>x\<bar>" "\<bar>x\<bar> < 2" | "2 \<le> \<bar>x\<bar>"
    by linarith
  then show ?thesis
  proof cases
    case 1 then show ?thesis using cubic_centre [of x] by (simp add: cubic_lower_def)
  next
    case 2 then show ?thesis using cubic_inner_nonneg [of x] by (simp add: cubic_lower_def)
  next
    case 3 then show ?thesis using cubic_lobe [of x] by (simp add: cubic_lower_def)
  next
    case 4 then show ?thesis using cubic_far [of x] by (simp add: cubic_lower_def)
  qed
qed

lemma cubic_partition:
  assumes "0 \<le> f" "f < 1"
  shows "cubic exact (f + 1) + cubic exact f + cubic exact (f - 1) + cubic exact (f - 2) = 1"
proof -
  have a: "\<bar>f + 1\<bar> = f + 1" "\<bar>f\<bar> = f" "\<bar>f - 1\<bar> = 1 - f" "\<bar>f - 2\<bar> = 2 - f"
    using assms by simp_all
  show ?thesis
  proof (cases "f = 0")
    case True
    then show ?thesis by (simp add: cubic_exact Let_def)
  next
    case False
    then have "0 < f" using assms by simp
    then have "cubic exact (f + 1) = - 0.5 * (f + 1) ^ 3 + 2.5 * (f + 1) ^ 2 - 4 * (f + 1) + 2"
      "cubic exact f = 1.5 * f ^ 3 - 2.5 * f ^ 2 + 1"
      "cubic exact (f - 1) = 1.5 * (1 - f) ^ 3 - 2.5 * (1 - f) ^ 2 + 1"
      "cubic exact (f - 2) = - 0.5 * (2 - f) ^ 3 + 2.5 * (2 - f) ^ 2 - 4 * (2 - f) + 2"
      using assms cubic_outer [of "f + 1"] cubic_inner [of f] cubic_inner [of "f - 1"]
        cubic_outer [of "f - 2"] a by simp_all
    then show ?thesis by (simp add: field_simps power2_eq_square power3_eq_cube)
  qed
qed

section \<open>Integers in a real interval\<close>

lemma card_int_open:
  fixes x y :: real
  shows "card {z::int. x < of_int z \<and> of_int z < y} \<le> nat \<lceil>y - x\<rceil>"
proof -
  have sub: "{z::int. x < of_int z \<and> of_int z < y} \<subseteq> {\<lfloor>x\<rfloor> + 1 .. \<lceil>y\<rceil> - 1}"
  proof
    fix z assume "z \<in> {z::int. x < of_int z \<and> of_int z < y}"
    then have z: "x < of_int z" "of_int z < y" by simp_all
    have "\<lfloor>x\<rfloor> < z" using z(1) by (simp add: floor_less_iff)
    moreover have "z < \<lceil>y\<rceil>" using z(2) by (simp add: less_ceiling_iff)
    ultimately show "z \<in> {\<lfloor>x\<rfloor> + 1 .. \<lceil>y\<rceil> - 1}" by simp
  qed
  have "card {z::int. x < of_int z \<and> of_int z < y} \<le> card {\<lfloor>x\<rfloor> + 1 .. \<lceil>y\<rceil> - 1}"
    by (rule card_mono [OF _ sub]) simp
  also have "\<dots> = nat (\<lceil>y\<rceil> - \<lfloor>x\<rfloor> - 1)" by simp
  also have "\<dots> \<le> nat \<lceil>y - x\<rceil>"
  proof -
    have "y - x \<le> of_int \<lceil>y - x\<rceil>" by (rule le_of_int_ceiling)
    moreover have "x < of_int \<lfloor>x\<rfloor> + 1" by linarith
    moreover have "real_of_int (\<lceil>y - x\<rceil> + \<lfloor>x\<rfloor> + 1) = of_int \<lceil>y - x\<rceil> + of_int \<lfloor>x\<rfloor> + 1"
      by simp
    ultimately have "y \<le> of_int (\<lceil>y - x\<rceil> + \<lfloor>x\<rfloor> + 1)" by linarith
    then have "\<lceil>y\<rceil> \<le> \<lceil>y - x\<rceil> + \<lfloor>x\<rfloor> + 1"
      by (simp only: ceiling_le_iff)
    then show ?thesis by simp
  qed
  finally show ?thesis .
qed

lemma card_int_closed:
  fixes x y :: real
  shows "nat \<lfloor>y - x\<rfloor> \<le> card {z::int. x \<le> of_int z \<and> of_int z \<le> y}"
proof -
  have fin: "finite {z::int. x \<le> of_int z \<and> of_int z \<le> y}"
  proof (rule finite_subset)
    show "{z::int. x \<le> of_int z \<and> of_int z \<le> y} \<subseteq> {\<lceil>x\<rceil> .. \<lfloor>y\<rfloor>}"
      by (auto simp: ceiling_le_iff le_floor_iff)
  qed simp
  have sub: "{\<lceil>x\<rceil> .. \<lfloor>y\<rfloor>} \<subseteq> {z::int. x \<le> of_int z \<and> of_int z \<le> y}"
    by (auto simp: ceiling_le_iff le_floor_iff)
  have a: "of_int \<lfloor>y - x\<rfloor> \<le> y - x" by (rule of_int_floor_le)
  have b: "of_int \<lceil>x\<rceil> < x + 1" by linarith
  have c: "real_of_int (\<lfloor>y - x\<rfloor> + \<lceil>x\<rceil> - 1) = of_int \<lfloor>y - x\<rfloor> + of_int \<lceil>x\<rceil> - 1"
    by simp
  have "of_int (\<lfloor>y - x\<rfloor> + \<lceil>x\<rceil> - 1) < y" using a b c by linarith
  then have "of_int (\<lfloor>y - x\<rfloor> + \<lceil>x\<rceil> - 1) \<le> y" by simp
  then have "\<lfloor>y - x\<rfloor> + \<lceil>x\<rceil> - 1 \<le> \<lfloor>y\<rfloor>" by (simp only: le_floor_iff)
  then have "nat \<lfloor>y - x\<rfloor> \<le> nat (\<lfloor>y\<rfloor> - \<lceil>x\<rceil> + 1)" by simp
  also have "\<dots> = card {\<lceil>x\<rceil> .. \<lfloor>y\<rfloor>}" by simp
  also have "\<dots> \<le> card {z::int. x \<le> of_int z \<and> of_int z \<le> y}"
    by (rule card_mono [OF fin sub])
  finally show ?thesis .
qed

section \<open>The weights of a row have a positive sum\<close>

text \<open>
  When a downscale is antialiased the row samples the kernel at the points
  \<open>a - scale * j\<close> with \<open>2 \<le> a < 2 + scale\<close>. The kernel is at least 9/16 on the
  \<open>\<lfloor>1 / scale\<rfloor>\<close> points or more that fall in \<open>[-1/2, 1/2]\<close>, at least -1/8 on the
  \<open>2 * \<lceil>1 / scale\<rceil>\<close> points or fewer that fall in the two negative lobes, and not
  negative elsewhere: the sum is positive.
\<close>

lemma cubic_lower_split:
  "cubic_lower x = (if \<bar>x\<bar> \<le> 1 / 2 then 9 / 16 else 0) - (if 1 < x \<and> x < 2 then 1 / 8 else 0)
      - (if - 2 < x \<and> x < - 1 then 1 / 8 else 0)"
  by (auto simp: cubic_lower_def)

lemma sum_indicator:
  fixes c :: real
  assumes "finite S"
  shows "(\<Sum>j\<in>S. if Q j then c else 0) = c * real (card {j \<in> S. Q j})"
proof -
  have "(\<Sum>j\<in>S. if Q j then c else 0)
      = (\<Sum>j\<in>S \<inter> {j. Q j}. c) + (\<Sum>j\<in>S \<inter> - {j. Q j}. 0)"
    by (rule sum.If_cases [OF assms])
  moreover have "S \<inter> {j. Q j} = {j \<in> S. Q j}" by auto
  ultimately show ?thesis by simp
qed

lemma antialias_sum_pos:
  fixes s a :: real and P :: nat
  assumes s: "0 < s" "s < 1" and a: "2 \<le> a" "a < 2 + s" and P: "4 / s + 1 \<le> real P"
  shows "0 < (\<Sum>j<P. cubic exact (a - s * real j))"
proof -
  define A where "A = {j \<in> {..<P}. \<bar>a - s * real j\<bar> \<le> 1 / 2}"
  define B1 where "B1 = {j \<in> {..<P}. 1 < a - s * real j \<and> a - s * real j < 2}"
  define B2 where "B2 = {j \<in> {..<P}. - 2 < a - s * real j \<and> a - s * real j < - 1}"
  define k where "k = \<lceil>1 / s\<rceil>"
  have inv: "1 < 1 / s" using s by simp
  have k2: "2 \<le> k" unfolding k_def using inv by linarith
  have fl: "k - 1 \<le> \<lfloor>1 / s\<rfloor>" unfolding k_def by linarith
  have cB1: "card B1 \<le> nat k"
  proof -
    have "int ` B1 \<subseteq> {z::int. (a - 2) / s < of_int z \<and> of_int z < (a - 1) / s}"
      using s by (auto simp: B1_def field_simps)
    then have "card (int ` B1) \<le> card {z::int. (a - 2) / s < of_int z \<and> of_int z < (a - 1) / s}"
      by (intro card_mono) (auto intro: finite_subset [of _ "{\<lfloor>(a - 2) / s\<rfloor> .. \<lceil>(a - 1) / s\<rceil>}"] simp: floor_le_iff le_ceiling_iff less_imp_le)
    also have "\<dots> \<le> nat \<lceil>(a - 1) / s - (a - 2) / s\<rceil>" by (rule card_int_open)
    also have "(a - 1) / s - (a - 2) / s = 1 / s" using s by (simp add: field_simps)
    finally show ?thesis by (simp add: card_image k_def)
  qed
  have cB2: "card B2 \<le> nat k"
  proof -
    have "int ` B2 \<subseteq> {z::int. (a + 1) / s < of_int z \<and> of_int z < (a + 2) / s}"
      using s by (auto simp: B2_def field_simps)
    then have "card (int ` B2) \<le> card {z::int. (a + 1) / s < of_int z \<and> of_int z < (a + 2) / s}"
      by (intro card_mono) (auto intro: finite_subset [of _ "{\<lfloor>(a + 1) / s\<rfloor> .. \<lceil>(a + 2) / s\<rceil>}"] simp: floor_le_iff le_ceiling_iff less_imp_le)
    also have "\<dots> \<le> nat \<lceil>(a + 2) / s - (a + 1) / s\<rceil>" by (rule card_int_open)
    also have "(a + 2) / s - (a + 1) / s = 1 / s" using s by (simp add: field_simps)
    finally show ?thesis by (simp add: card_image k_def)
  qed
  have cA: "nat (k - 1) \<le> card A"
  proof -
    have sub: "{z::int. (a - 1 / 2) / s \<le> of_int z \<and> of_int z \<le> (a + 1 / 2) / s} \<subseteq> int ` A"
    proof
      fix z :: int
      assume "z \<in> {z::int. (a - 1 / 2) / s \<le> of_int z \<and> of_int z \<le> (a + 1 / 2) / s}"
      then have z: "(a - 1 / 2) / s \<le> of_int z" "of_int z \<le> (a + 1 / 2) / s" by simp_all
      have "0 < (a - 1 / 2) / s" using a s by simp
      then have zpos: "0 \<le> z" using z(1) by linarith
      have "(a + 1 / 2) / s < (5 / 2 + s) / s" using a s by (simp add: divide_strict_right_mono)
      also have "\<dots> = 5 / 2 / s + 1" using s by (simp add: field_simps)
      also have "\<dots> \<le> 4 / s + 1" using s by (simp add: field_simps)
      finally have "real_of_int z < real P" using z(2) P by linarith
      then have zP: "nat z < P" using zpos by linarith
      have r: "real (nat z) = of_int z" using zpos by simp
      have "a - 1 / 2 \<le> s * of_int z" "s * of_int z \<le> a + 1 / 2"
        using z s by (simp_all add: field_simps)
      then have "\<bar>a - s * real (nat z)\<bar> \<le> 1 / 2" unfolding r by linarith
      then have "nat z \<in> A" using zP by (simp add: A_def)
      then have "int (nat z) \<in> int ` A" by (rule imageI)
      then show "z \<in> int ` A" using zpos by simp
    qed
    have "nat \<lfloor>(a + 1 / 2) / s - (a - 1 / 2) / s\<rfloor>
            \<le> card {z::int. (a - 1 / 2) / s \<le> of_int z \<and> of_int z \<le> (a + 1 / 2) / s}"
      by (rule card_int_closed)
    also have "\<dots> \<le> card (int ` A)"
      by (rule card_mono [OF _ sub]) (simp add: A_def)
    also have "\<dots> = card A" by (simp add: card_image)
    finally have "nat \<lfloor>(a + 1 / 2) / s - (a - 1 / 2) / s\<rfloor> \<le> card A" .
    moreover have "(a + 1 / 2) / s - (a - 1 / 2) / s = 1 / s" using s by (simp add: field_simps)
    ultimately have "nat \<lfloor>1 / s\<rfloor> \<le> card A" by simp
    then show ?thesis using fl by linarith
  qed
  have "(\<Sum>j<P. cubic_lower (a - s * real j))
      = (\<Sum>j<P. if \<bar>a - s * real j\<bar> \<le> 1 / 2 then 9 / 16 else 0)
        - (\<Sum>j<P. if 1 < a - s * real j \<and> a - s * real j < 2 then 1 / 8 else 0)
        - (\<Sum>j<P. if - 2 < a - s * real j \<and> a - s * real j < - 1 then 1 / 8 else 0)"
    by (simp only: cubic_lower_split sum_subtractf)
  also have "\<dots> = 9 / 16 * real (card A) - 1 / 8 * real (card B1) - 1 / 8 * real (card B2)"
    by (simp only: sum_indicator [OF finite_lessThan] A_def B1_def B2_def)
  finally have low: "(\<Sum>j<P. cubic_lower (a - s * real j))
      = 9 / 16 * real (card A) - 1 / 8 * real (card B1) - 1 / 8 * real (card B2)" .
  have "real (nat (k - 1)) \<le> real (card A)" using cA by (simp only: of_nat_le_iff)
  then have rA: "real_of_int k - 1 \<le> real (card A)" using k2 by simp
  have "real (card B1) \<le> real (nat k)" "real (card B2) \<le> real (nat k)"
    using cB1 cB2 by (simp_all only: of_nat_le_iff)
  then have rB: "real (card B1) \<le> real_of_int k" "real (card B2) \<le> real_of_int k"
    using k2 by simp_all
  have rk: "2 \<le> real_of_int k" using k2 by simp
  have "0 < 9 / 16 * real (card A) - 1 / 8 * real (card B1) - 1 / 8 * real (card B2)"
    using rA rB rk by linarith
  also have "\<dots> \<le> (\<Sum>j<P. cubic exact (a - s * real j))"
    unfolding low [symmetric] by (rule sum_mono) (rule cubic_lower)
  finally show ?thesis .
qed

section \<open>The first and the last column of the weights are zero\<close>

lemma kernel_support_ge: "0 < scale \<or> \<not> aa \<Longrightarrow> 4 \<le> kernel_support scale aa"
  by (auto simp: kernel_support_def field_simps)

lemma ceiling_support_ge: assumes "0 < scale \<or> \<not> aa" shows "4 \<le> \<lceil>kernel_support scale aa\<rceil>"
proof -
  have "4 \<le> kernel_support scale aa" by (rule kernel_support_ge [OF assms])
  also have "\<dots> \<le> real_of_int \<lceil>kernel_support scale aa\<rceil>" by (rule le_of_int_ceiling)
  finally have "real_of_int 4 \<le> real_of_int \<lceil>kernel_support scale aa\<rceil>" by simp
  then show ?thesis by (simp only: of_int_le_iff)
qed

lemma taps_ge: assumes "0 < scale \<or> \<not> aa" shows "6 \<le> taps scale aa"
  using ceiling_support_ge [OF assms] unfolding taps_def by linarith

lemma taps_int: assumes "0 < scale \<or> \<not> aa"
  shows "int (taps scale aa) = \<lceil>kernel_support scale aa\<rceil> + 2"
  using ceiling_support_ge [OF assms] unfolding taps_def by linarith

lemma left_tap_bounds:
  "real_of_int (left_tap exact kw v) \<le> v - kw / 2" "v - kw / 2 < real_of_int (left_tap exact kw v) + 1"
  unfolding left_tap_exact by linarith+

lemma raw_first_zero:
  assumes "0 < scale \<or> \<not> aa"
  shows "kernel_weight exact scale aa v (left_tap exact (kernel_support scale aa) v) = 0"
proof -
  define kw where "kw = kernel_support scale aa"
  define d where "d = v - real_of_int (left_tap exact kw v)"
  have d: "kw / 2 \<le> d" using left_tap_bounds(1) [where v = v and kw = kw] unfolding d_def by linarith
  show ?thesis
  proof (cases "scale < 1 \<and> aa")
    case True
    then have "kw = 4 / scale" by (simp add: kw_def kernel_support_def)
    then have "2 / scale \<le> d" using d by simp
    moreover have "0 < scale" using True assms by blast
    ultimately have "2 \<le> d * scale" by (simp add: field_simps)
    then have "cubic exact (d * scale) = 0" by (intro cubic_far) simp
    then show ?thesis using True by (simp add: kernel_weight_exact d_def kw_def)
  next
    case False
    then have "kw = 4" by (auto simp: kw_def kernel_support_def)
    then have "2 \<le> d" using d by simp
    then have "cubic exact d = 0" by (intro cubic_far) simp
    then show ?thesis using False by (auto simp: kernel_weight_exact d_def kw_def)
  qed
qed

lemma raw_last_zero:
  assumes "0 < scale \<or> \<not> aa"
  shows "kernel_weight exact scale aa v
           (left_tap exact (kernel_support scale aa) v + int (taps scale aa - 1)) = 0"
proof -
  define kw where "kw = kernel_support scale aa"
  define d where "d = v - real_of_int (left_tap exact kw v + int (taps scale aa - 1))"
  have "int (taps scale aa - 1) = \<lceil>kw\<rceil> + 1"
    using taps_int [OF assms] taps_ge [OF assms] by (simp add: kw_def)
  then have "d = v - real_of_int (left_tap exact kw v) - (real_of_int \<lceil>kw\<rceil> + 1)"
    by (simp add: d_def)
  moreover have "kw \<le> real_of_int \<lceil>kw\<rceil>" by (rule le_of_int_ceiling)
  ultimately have d: "d \<le> - (kw / 2)"
    using left_tap_bounds(2) [where v = v and kw = kw] by linarith
  show ?thesis
  proof (cases "scale < 1 \<and> aa")
    case True
    then have "kw = 4 / scale" by (simp add: kw_def kernel_support_def)
    then have "d \<le> - (2 / scale)" using d by simp
    moreover have "0 < scale" using True assms by blast
    ultimately have "d * scale \<le> - 2" by (simp add: field_simps)
    then have "cubic exact (d * scale) = 0" by (intro cubic_far) simp
    then show ?thesis using True by (simp add: kernel_weight_exact d_def kw_def)
  next
    case False
    then have "kw = 4" by (auto simp: kw_def kernel_support_def)
    then have "d \<le> - 2" using d by simp
    then have "cubic exact d = 0" by (intro cubic_far) simp
    then show ?thesis using False by (auto simp: kernel_weight_exact d_def kw_def)
  qed
qed

lemma sum_list_index_row:
  "sum_list (map g (index_row P l)) = (\<Sum>j<P. g (l + int j))"
  by (simp add: index_row_def comp_def interv_sum_list_conv_sum_set_nat atLeast0LessThan)

lemma raw_sum_pos:
  assumes "0 < scale \<or> \<not> aa"
  shows "0 < sum_list (map (kernel_weight exact scale aa v)
                 (index_row (taps scale aa) (left_tap exact (kernel_support scale aa) v)))"
proof -
  define kw where "kw = kernel_support scale aa"
  define l where "l = left_tap exact kw v"
  define P where "P = taps scale aa"
  show ?thesis
  proof (cases "scale < 1 \<and> aa")
    case True
    then have kw: "kw = 4 / scale" by (simp add: kw_def kernel_support_def)
    define a where "a = (v - real_of_int l) * scale"
    have "kw / 2 = 2 / scale" by (simp add: kw)
    then have "2 / scale \<le> v - real_of_int l" "v - real_of_int l < 2 / scale + 1"
      using left_tap_bounds [where v = v and kw = kw] unfolding l_def by linarith+
    moreover have sp: "0 < scale" using True assms by blast
    ultimately have a: "2 \<le> a" "a < 2 + scale"
      by (simp_all add: a_def field_simps)
    have "real P = real_of_int \<lceil>kw\<rceil> + 2"
      using taps_int [OF assms] by (simp add: P_def kw_def)
    moreover have "kw \<le> real_of_int \<lceil>kw\<rceil>" by (rule le_of_int_ceiling)
    ultimately have "kw + 1 \<le> real P" by linarith
    then have P: "4 / scale + 1 \<le> real P" by (simp only: kw)
    have "(\<Sum>j<P. kernel_weight exact scale aa v (l + int j))
        = (\<Sum>j<P. scale * cubic exact (a - scale * real j))"
      using True by (intro sum.cong) (simp_all add: kernel_weight_exact a_def algebra_simps)
    also have "\<dots> = scale * (\<Sum>j<P. cubic exact (a - scale * real j))"
      by (simp add: sum_distrib_left)
    finally have e: "(\<Sum>j<P. kernel_weight exact scale aa v (l + int j))
        = scale * (\<Sum>j<P. cubic exact (a - scale * real j))" .
    have "0 < scale * (\<Sum>j<P. cubic exact (a - scale * real j))"
      using antialias_sum_pos [OF sp _ a P] True sp by simp
    then have "0 < (\<Sum>j<P. kernel_weight exact scale aa v (l + int j))" by (simp only: e)
    then show ?thesis
      unfolding sum_list_index_row P_def l_def kw_def .
  next
    case False
    then have kw: "kw = 4" by (auto simp: kw_def kernel_support_def)
    have P6: "P = 6" by (simp add: P_def taps_def kw [unfolded kw_def])
    define f where "f = v - real_of_int l - 2"
    have f: "0 \<le> f" "f < 1"
      using left_tap_bounds [where v = v and kw = kw] unfolding f_def l_def kw by linarith+
    have kwt: "kernel_weight exact scale aa v i = cubic exact (v - real_of_int i)" for i
      using False by (auto simp: kernel_weight_exact)
    have "(\<Sum>j<P. kernel_weight exact scale aa v (l + int j))
        = cubic exact (f + 2) + cubic exact (f + 1) + cubic exact f + cubic exact (f - 1) + cubic exact (f - 2) + cubic exact (f - 3)"
      unfolding P6 kwt
      by (simp add: lessThan_nat_numeral lessThan_Suc f_def algebra_simps)
    also have "cubic exact (f + 2) = 0" using f by (intro cubic_far) simp
    also have "cubic exact (f - 3) = 0" using f by (intro cubic_far) simp
    finally have "(\<Sum>j<P. kernel_weight exact scale aa v (l + int j)) = 1"
      using cubic_partition [OF f] by simp
    then show ?thesis unfolding sum_list_index_row P_def l_def kw_def by simp
  qed
qed

section \<open>What calculate_weights_indices returns in exact arithmetic\<close>

lemma seq_Inr [simp]: "seq (Inr x) f = f x"
  by (simp add: seq_def)

lemma seq_Inl [simp]: "seq (Inl e) f = Inl e"
  by (simp add: seq_def)

lemma length_index_row [simp]: "length (index_row P l) = P"
  by (simp add: index_row_def)

lemma nth_index_row: "j < P \<Longrightarrow> index_row P l ! j = l + int j"
  by (simp add: index_row_def)

lemma length_weight_row [simp]: "length (weight_row ar scale aa v row) = length row"
  by (simp add: weight_row_def normalize_row_def)

lemma narrow_index_row:
  "off + k \<le> P \<Longrightarrow> take k (drop off (index_row P l)) = index_row k (l + int off)"
  by (auto simp: index_row_def list_eq_iff_nth_eq)

lemma set_index_row: "set (index_row k l) = {l ..< l + int k}"
proof -
  have "set (index_row k l) = (\<lambda>j. l + int j) ` {0..<k}" by (simp add: index_row_def)
  also have "\<dots> = {l ..< l + int k}"
  proof (rule set_eqI)
    fix z
    show "z \<in> (\<lambda>j. l + int j) ` {0..<k} \<longleftrightarrow> z \<in> {l ..< l + int k}"
    proof
      assume "z \<in> {l ..< l + int k}"
      then have "z = l + int (nat (z - l))" "nat (z - l) \<in> {0..<k}" by auto
      then show "z \<in> (\<lambda>j. l + int j) ` {0..<k}" by (rule image_eqI)
    qed auto
  qed
  finally show ?thesis .
qed

lemma weight_row_nth:
  assumes "sum_list (map (kernel_weight exact scale aa v) row) \<noteq> 0" "j < length row"
  shows "weight_row exact scale aa v row ! j
           = Some (kernel_weight exact scale aa v (row ! j) / sum_list (map (kernel_weight exact scale aa v) row))"
  using assms by (simp add: weight_row_exact normalize_row_exact fdiv_def)

lemma length_full_row [simp]: "length (full_row scale aa v) = taps scale aa"
  by (simp add: full_row_def)

lemma full_row_first: assumes "0 < scale \<or> \<not> aa" shows "full_row scale aa v ! 0 = Some 0"
proof -
  have "0 < taps scale aa" using taps_ge [OF assms] by simp
  then show ?thesis
    unfolding full_row_def
    using raw_sum_pos [OF assms, of v] raw_first_zero [OF assms, of v]
    by (subst weight_row_nth) (simp_all add: nth_index_row)
qed

lemma full_row_last: assumes "0 < scale \<or> \<not> aa"
  shows "full_row scale aa v ! (taps scale aa - 1) = Some 0"
proof -
  have "taps scale aa - 1 < taps scale aa" using taps_ge [OF assms] by simp
  then show ?thesis
    unfolding full_row_def
    using raw_sum_pos [OF assms, of v] raw_last_zero [OF assms, of v]
    by (subst weight_row_nth) (simp_all add: nth_index_row)
qed

lemma zero_count_all:
  assumes "\<And>r. r \<in> set ws \<Longrightarrow> r ! j = Some 0"
  shows "zero_count ws j = length ws"
  unfolding zero_count_def using assms by (simp add: filter_id_conv)

lemma length_pruned_row: assumes "0 < scale \<or> \<not> aa"
  shows "length (pruned_row scale aa v) = taps scale aa - 2"
  using taps_ge [OF assms] by (simp add: pruned_row_def)

lemma calc_before_shift:
  assumes s: "0 < scale \<or> \<not> aa" and z: "scale \<noteq> 0" and o: "0 < out_length"
  defines "u \<equiv> map (in_coord exact scale) (out_coords out_length)"
  shows "calculate_weights_indices exact in_length out_length scale 4 aa =
           shift_indices in_length
             (map (pruned_row scale aa) u,
              map (\<lambda>v. index_row (taps scale aa - 2) (left_tap exact (kernel_support scale aa) v + 1)) u,
              taps scale aa - 2)"
proof -
  define kw where "kw = kernel_support scale aa"
  define P where "P = taps scale aa"
  have wk: "widen_kernel exact scale 4 aa = Inr kw"
    using z by (simp add: widen_kernel_exact kw_def kernel_support_def)
  have Pi: "\<lceil>kw\<rceil> + 2 = int P" using taps_int [OF s] by (simp add: P_def kw_def)
  have P6: "6 \<le> P" using taps_ge [OF s] by (simp add: P_def)
  have lu: "length u = nat out_length" by (simp add: u_def out_coords_def)
  then have une: "u \<noteq> []" using o by auto
  define ws where "ws = map (\<lambda>v. weight_row exact scale aa v (index_row P (left_tap exact kw v))) u"
  have wsf: "ws = map (full_row scale aa) u"
    by (simp add: ws_def full_row_def P_def kw_def)
  have z0: "zero_count ws 0 = length u"
    unfolding wsf using full_row_first [OF s] by (subst zero_count_all) auto
  have zl: "zero_count ws (P - 1) = length u"
    unfolding wsf P_def using full_row_last [OF s] by (subst zero_count_all) auto
  have un0: "length u \<noteq> 0" using une by simp
  have n1: "narrow_cols (Suc 0) (int P - 2) P rows = Inr (map (\<lambda>r. take (P - 2) (drop 1 r)) rows)" for rows :: "'a list list"
    using P6 by (simp add: narrow_cols_def nat_diff_distrib)
  have n2: "narrow_cols 0 (int P - 2) (P - 2) rows = Inr (map (\<lambda>r. take (P - 2) r) rows)" for rows :: "'a list list"
    using P6 by (auto simp: narrow_cols_def nat_diff_distrib)
  have np: "nat (int P - 2) = P - 2" by simp
  have "calculate_weights_indices exact in_length out_length scale 4 aa =
          seq (prune True 1 (int P) (ws, map (\<lambda>v. index_row P (left_tap exact kw v)) u, P))
            (\<lambda>m. seq (prune True 0 (int P) m) (shift_indices in_length))"
    unfolding calculate_weights_indices_exact wk
    using z o P6 z0 zl un0
    by (simp add: Let_def Pi u_def [symmetric] ws_def [symmetric])
  also have "\<dots> = shift_indices in_length
      (map (\<lambda>r. take (P - 2) (take (P - 2) (drop 1 r))) ws,
       map (\<lambda>r. take (P - 2) (take (P - 2) (drop 1 r))) (map (\<lambda>v. index_row P (left_tap exact kw v)) u),
       P - 2)"
    by (simp add: prune_def n1 n2 np comp_def)
  also have "map (\<lambda>r. take (P - 2) (take (P - 2) (drop 1 r))) ws = map (pruned_row scale aa) u"
    by (simp add: wsf pruned_row_def P_def comp_def)
  also have "map (\<lambda>r. take (P - 2) (take (P - 2) (drop 1 r))) (map (\<lambda>v. index_row P (left_tap exact kw v)) u)
      = map (\<lambda>v. index_row (P - 2) (left_tap exact kw v + 1)) u"
    using P6 narrow_index_row [of 1 "P - 2" P] by (simp add: comp_def)
  finally show ?thesis unfolding P_def kw_def .
qed

lemma shift_indices_rows:
  assumes k: "0 < k" and u: "ls \<noteq> []" and lw: "length ws = length ls"
    and wk: "\<And>w. w \<in> set ws \<Longrightarrow> length w = k"
  shows "\<exists>indices s e.
           shift_indices n (ws, map (index_row k) ls, k) = Inr (ws, indices, s, e) \<and>
           length indices = length ls \<and>
           Min (set (concat indices)) = 0 \<and>
           (\<forall>i < length ls. indices ! i = index_row k (ls ! i - Min (set ls)) \<and>
              0 \<le> hd (indices ! i) \<and>
              hd (indices ! i) + int k \<le> n + s + e) \<and>
           s = 1 - Min (set ls) \<and> e = Max (set ls) + int k - 1 - n"
proof -
  define S where "S = set (concat (map (index_row k) ls))"
  have S: "S = (\<Union>l \<in> set ls. {l ..< l + int k})"
    by (simp add: S_def set_index_row)
  have fin: "finite S" by (simp add: S_def)
  obtain l0 where l0: "l0 \<in> set ls" using u by (cases ls) auto
  have ne: "S \<noteq> {}" using l0 k unfolding S by auto
  have cne: "concat (map (index_row k) ls) \<noteq> []" using ne by (auto simp: S_def)
  have lo: "Min (set ls) \<le> l" if "l \<in> set ls" for l
    using that by (intro Min_le) simp_all
  have hi: "l \<le> Max (set ls)" if "l \<in> set ls" for l
    using that by (intro Max_ge) simp_all
  have mn: "Min S = Min (set ls)"
  proof (rule Min_eqI [OF fin])
    fix y assume "y \<in> S"
    then obtain l where "l \<in> set ls" "l \<le> y" unfolding S by auto
    then show "Min (set ls) \<le> y" using lo [of l] by linarith
  next
    have "Min (set ls) \<in> set ls" using u by (intro Min_in) simp_all
    moreover have "Min (set ls) \<in> {Min (set ls) ..< Min (set ls) + int k}"
      using k by simp
    ultimately show "Min (set ls) \<in> S" unfolding S by blast
  qed
  have mx: "Max S = Max (set ls) + int k - 1"
  proof (rule Max_eqI [OF fin])
    fix y assume "y \<in> S"
    then obtain l where "l \<in> set ls" "y < l + int k" unfolding S by auto
    then show "y \<le> Max (set ls) + int k - 1" using hi [of l] by linarith
  next
    have "Max (set ls) \<in> set ls" using u by (intro Max_in) simp_all
    moreover have "Max (set ls) + int k - 1 \<in> {Max (set ls) ..< Max (set ls) + int k}"
      using k by simp
    ultimately show "Max (set ls) + int k - 1 \<in> S" unfolding S by blast
  qed
  define m where "m = Min (set ls)"
  define indices where "indices = map (\<lambda>l. index_row k (l - m)) ls"
  have shifted: "map (map (\<lambda>i. i + (- m + 1) - 1)) (map (index_row k) ls) = indices"
    by (simp add: indices_def index_row_def comp_def)
  have "shift_indices n (ws, map (index_row k) ls, k)
      = Inr (ws, map (map (\<lambda>i. i + (- Min S + 1) - 1)) (map (index_row k) ls),
             - Min S + 1, Max S - n)"
    unfolding S_def using cne by (simp only: shift_indices_def Let_def prod.case if_False)
  also have "\<dots> = Inr (ws, indices, 1 - m, Max (set ls) + int k - 1 - n)"
    unfolding mn mx m_def [symmetric] shifted by simp
  finally have res: "shift_indices n (ws, map (index_row k) ls, k)
      = Inr (ws, indices, 1 - m, Max (set ls) + int k - 1 - n)" .
  have S': "set (concat indices) = (\<Union>l \<in> set ls. {l - m ..< l - m + int k})"
    by (simp add: indices_def set_index_row)
  have min0: "Min (set (concat indices)) = 0"
  proof (rule Min_eqI)
    show "finite (set (concat indices))" by simp
  next
    fix y assume "y \<in> set (concat indices)"
    then obtain l where "l \<in> set ls" "l - m \<le> y" unfolding S' by auto
    then show "0 \<le> y" using lo [of l] unfolding m_def by linarith
  next
    have "m \<in> set ls" unfolding m_def using u by (intro Min_in) simp_all
    moreover have "0 \<in> {m - m ..< m - m + int k}" using k by simp
    ultimately show "0 \<in> set (concat indices)" unfolding S' by blast
  qed
  have rows: "indices ! i = index_row k (ls ! i - m) \<and> 0 \<le> hd (indices ! i) \<and>
      hd (indices ! i) + int k \<le> n + (1 - m) + (Max (set ls) + int k - 1 - n)"
    if "i < length ls" for i
  proof -
    have r: "indices ! i = index_row k (ls ! i - m)" using that by (simp add: indices_def)
    have hd: "hd (index_row k (ls ! i - m)) = ls ! i - m"
      using k by (simp add: index_row_def hd_map upt_conv_Cons)
    have mem: "ls ! i \<in> set ls" using that by simp
    have "m \<le> ls ! i" "ls ! i \<le> Max (set ls)"
      using lo [OF mem] hi [OF mem] by (simp_all add: m_def)
    then have "0 \<le> ls ! i - m"
      "ls ! i - m + int k \<le> n + (1 - m) + (Max (set ls) + int k - 1 - n)" by linarith+
    then show ?thesis unfolding r hd by simp
  qed
  show ?thesis
    using res min0 rows by (auto simp: indices_def m_def)
qed




lemma calc_rows:
  fixes scale :: real and aa :: bool and in_length out_length :: int
  assumes s: "0 < scale \<or> \<not> aa" and z: "scale \<noteq> 0" and o: "0 < out_length"
  defines "u \<equiv> map (in_coord exact scale) (out_coords out_length)"
  defines "ls \<equiv> map (\<lambda>v. left_tap exact (kernel_support scale aa) v + 1) u"
  defines "k \<equiv> taps scale aa - 2"
  shows "\<exists>indices sym_len_s sym_len_e.
           calculate_weights_indices exact in_length out_length scale 4 aa
             = Inr (map (pruned_row scale aa) u, indices, sym_len_s, sym_len_e) \<and>
           length indices = nat out_length \<and>
           Min (set (concat indices)) = 0 \<and>
           (\<forall>i < nat out_length.
              indices ! i = index_row k (ls ! i - Min (set ls)) \<and>
              0 \<le> hd (indices ! i) \<and>
              hd (indices ! i) + int k \<le> in_length + sym_len_s + sym_len_e) \<and>
           sym_len_s = 1 - Min (set ls) \<and>
           sym_len_e = Max (set ls) + int k - 1 - in_length"
proof -
  have lu: "length u = nat out_length" by (simp add: u_def out_coords_def)
  have lls: "length ls = nat out_length" by (simp add: ls_def lu)
  have ne: "ls \<noteq> []" using o lls by auto
  have kpos: "0 < k" using taps_ge [OF s] by (simp add: k_def)
  have wl: "length (map (pruned_row scale aa) u) = length ls" by (simp add: ls_def)
  have wk: "length w = k" if "w \<in> set (map (pruned_row scale aa) u)" for w
    using that length_pruned_row [OF s] by (auto simp: k_def)
  have idx: "map (\<lambda>v. index_row k (left_tap exact (kernel_support scale aa) v + 1)) u
      = map (index_row k) ls"
    by (simp add: ls_def comp_def)
  show ?thesis
    using shift_indices_rows [OF kpos ne wl wk, of in_length]
    unfolding calc_before_shift [OF s z o, of in_length] u_def [symmetric] k_def [symmetric] idx lls
    by blast
qed

section \<open>What calculate_weights_indices returns in any arithmetic\<close>

lemma prune_shape:
  assumes p: "prune b st P (ws, map (index_row k) ls, k) = Inr m"
    and wk: "\<forall>w \<in> set ws. length w = k"
  shows "\<exists>ws' k' ls'. m = (ws', map (index_row k') ls', k') \<and> length ws' = length ws \<and>
           length ls' = length ls \<and> (\<forall>w \<in> set ws'. length w = k')"
proof (cases b)
  case False
  then have "m = (ws, map (index_row k) ls, k)" using p by (simp add: prune_def)
  then show ?thesis using wk by blast
next
  case True
  define n where "n = nat (P - 2)"
  have ok: "\<not> (P - 2 < 0 \<or> int k < int st + (P - 2))"
  proof
    assume "P - 2 < 0 \<or> int k < int st + (P - 2)"
    then have "narrow_cols st (P - 2) k (map (index_row k) ls) = Inl TensorError"
      by (simp add: narrow_cols_def)
    then show False using p True by (simp add: prune_def)
  qed
  then have fit: "st + n \<le> k" unfolding n_def by linarith
  have ni: "narrow_cols st (P - 2) k (map (index_row k) ls)
      = Inr (map (index_row n) (map (\<lambda>l. l + int st) ls))"
    using ok narrow_index_row [OF fit] by (simp add: narrow_cols_def n_def comp_def)
  have nw: "narrow_cols st (P - 2) k ws = Inr (map (\<lambda>r. take n (drop st r)) ws)"
    using ok by (simp add: narrow_cols_def n_def)
  have m: "m = (map (\<lambda>r. take n (drop st r)) ws,
                map (index_row n) (map (\<lambda>l. l + int st) ls), n)"
    using p True by (simp add: prune_def ni nw n_def)
  have "\<forall>w \<in> set (map (\<lambda>r. take n (drop st r)) ws). length w = n"
    using wk fit by auto
  then show ?thesis using m by (intro exI conjI) (assumption | simp)+
qed

lemma prune_returns:
  assumes wk: "\<forall>w \<in> set ws. length w = k"
    and P: "2 \<le> P" and fit: "int st + (P - 2) \<le> int k"
  shows "\<exists>ws' k' ls'. prune b st P (ws, map (index_row k) ls, k)
             = Inr (ws', map (index_row k') ls', k') \<and>
           length ws' = length ws \<and> length ls' = length ls \<and>
           (\<forall>w \<in> set ws'. length w = k') \<and> (k' = k \<or> k' = nat (P - 2))"
proof (cases b)
  case False
  then have "prune b st P (ws, map (index_row k) ls, k) = Inr (ws, map (index_row k) ls, k)"
    by (simp add: prune_def)
  then show ?thesis using wk by blast
next
  case True
  define n where "n = nat (P - 2)"
  have ok: "\<not> (P - 2 < 0 \<or> int k < int st + (P - 2))" using P fit by simp
  have fit': "st + n \<le> k" using P fit unfolding n_def by linarith
  have ni: "narrow_cols st (P - 2) k (map (index_row k) ls)
      = Inr (map (index_row n) (map (\<lambda>l. l + int st) ls))"
    using ok narrow_index_row [OF fit'] by (simp add: narrow_cols_def n_def comp_def)
  have nw: "narrow_cols st (P - 2) k ws = Inr (map (\<lambda>r. take n (drop st r)) ws)"
    using ok by (simp add: narrow_cols_def n_def)
  have m: "prune b st P (ws, map (index_row k) ls, k)
      = Inr (map (\<lambda>r. take n (drop st r)) ws,
             map (index_row n) (map (\<lambda>l. l + int st) ls), n)"
    using True by (simp add: prune_def ni nw n_def)
  have "\<forall>w \<in> set (map (\<lambda>r. take n (drop st r)) ws). length w = n"
    using wk fit' by auto
  then show ?thesis unfolding m n_def [symmetric] by (intro exI conjI) (rule refl | simp)+
qed


lemma calc_unfold:
  assumes wk: "widen_kernel ar scale kernel_width aa = Inr kw"
    and o: "0 \<le> out_length" and sc: "scale \<noteq> 0" and P: "0 < \<lceil>kw\<rceil> + 2"
  defines "u \<equiv> map (in_coord ar scale) (out_coords out_length)"
  defines "ws \<equiv> map (\<lambda>v. weight_row ar scale aa v
                            (index_row (nat (\<lceil>kw\<rceil> + 2)) (left_tap ar kw v))) u"
  shows "calculate_weights_indices ar in_length out_length scale kernel_width aa =
           seq (prune (zero_count ws 0 \<noteq> 0) 1 (\<lceil>kw\<rceil> + 2)
                  (ws, map (index_row (nat (\<lceil>kw\<rceil> + 2))) (map (left_tap ar kw) u),
                   nat (\<lceil>kw\<rceil> + 2)))
             (\<lambda>m. seq (prune (zero_count ws (nat (\<lceil>kw\<rceil> + 2) - 1) \<noteq> 0) 0 (\<lceil>kw\<rceil> + 2) m)
                (shift_indices in_length))"
  using o sc P
  by (simp add: calculate_weights_indices_def wk Let_def u_def ws_def comp_def)

lemma calc_fails_early:
  assumes "calculate_weights_indices ar in_length out_length scale kernel_width aa = Inr r"
  shows "\<exists>kw. widen_kernel ar scale kernel_width aa = Inr kw \<and> 0 \<le> out_length \<and>
           scale \<noteq> 0 \<and> 0 < \<lceil>kw\<rceil> + 2"
proof (cases "widen_kernel ar scale kernel_width aa")
  case (Inl err)
  then show ?thesis using assms by (simp add: calculate_weights_indices_def)
next
  case (Inr kw)
  then have "0 \<le> out_length \<and> scale \<noteq> 0 \<and> 0 < \<lceil>kw\<rceil> + 2"
    using assms by (auto simp: calculate_weights_indices_def Let_def split: if_splits)
  then show ?thesis using Inr by blast
qed

lemma calc_structure:
  assumes c: "calculate_weights_indices ar in_length out_length scale kernel_width aa
                = Inr (weights, indices, s, e)"
  shows "length weights = nat out_length \<and> length indices = nat out_length \<and>
         0 < out_length \<and> Min (set (concat indices)) = 0 \<and>
         (\<forall>i < nat out_length.
            indices ! i \<noteq> [] \<and> length (weights ! i) = length (indices ! i) \<and>
            0 \<le> hd (indices ! i) \<and>
            hd (indices ! i) + int (length (weights ! i)) \<le> in_length + s + e)"
proof -
  obtain kw where wk: "widen_kernel ar scale kernel_width aa = Inr kw"
    and o: "0 \<le> out_length" and sc: "scale \<noteq> 0" and P: "0 < \<lceil>kw\<rceil> + 2"
    using calc_fails_early [OF c] by blast
  define u where "u = map (in_coord ar scale) (out_coords out_length)"
  define k0 where "k0 = nat (\<lceil>kw\<rceil> + 2)"
  define ws where "ws = map (\<lambda>v. weight_row ar scale aa v (index_row k0 (left_tap ar kw v))) u"
  define ls where "ls = map (left_tap ar kw) u"
  have lu: "length u = nat out_length" by (simp add: u_def out_coords_def)
  have run: "seq (prune (zero_count ws 0 \<noteq> 0) 1 (\<lceil>kw\<rceil> + 2) (ws, map (index_row k0) ls, k0))
             (\<lambda>m. seq (prune (zero_count ws (k0 - 1) \<noteq> 0) 0 (\<lceil>kw\<rceil> + 2) m)
                (shift_indices in_length)) = Inr (weights, indices, s, e)"
    using c unfolding calc_unfold [OF wk o sc P] u_def ws_def ls_def k0_def .
  have w0: "\<forall>w \<in> set ws. length w = k0" by (auto simp: ws_def)
  have l0: "length ws = length ls" by (simp add: ws_def ls_def)
  obtain m1 where m1: "prune (zero_count ws 0 \<noteq> 0) 1 (\<lceil>kw\<rceil> + 2) (ws, map (index_row k0) ls, k0)
      = Inr m1"
    using run by (cases "prune (zero_count ws 0 \<noteq> 0) 1 (\<lceil>kw\<rceil> + 2)
        (ws, map (index_row k0) ls, k0)") simp_all
  obtain ws1 k1 ls1 where s1: "m1 = (ws1, map (index_row k1) ls1, k1)"
    "length ws1 = length ws" "length ls1 = length ls" "\<forall>w \<in> set ws1. length w = k1"
    using prune_shape [OF m1 w0] by blast
  have run2: "seq (prune (zero_count ws (k0 - 1) \<noteq> 0) 0 (\<lceil>kw\<rceil> + 2)
                (ws1, map (index_row k1) ls1, k1)) (shift_indices in_length)
              = Inr (weights, indices, s, e)"
    using run unfolding m1 seq_Inr s1(1) .
  obtain m2 where m2: "prune (zero_count ws (k0 - 1) \<noteq> 0) 0 (\<lceil>kw\<rceil> + 2)
      (ws1, map (index_row k1) ls1, k1) = Inr m2"
    using run2 by (cases "prune (zero_count ws (k0 - 1) \<noteq> 0) 0 (\<lceil>kw\<rceil> + 2)
        (ws1, map (index_row k1) ls1, k1)") simp_all
  obtain ws2 k2 ls2 where s2: "m2 = (ws2, map (index_row k2) ls2, k2)"
    "length ws2 = length ws1" "length ls2 = length ls1" "\<forall>w \<in> set ws2. length w = k2"
    using prune_shape [OF m2 s1(4)] by blast
  have sh: "shift_indices in_length (ws2, map (index_row k2) ls2, k2)
      = Inr (weights, indices, s, e)"
    using run2 unfolding m2 seq_Inr s2(1) .
  have cne: "concat (map (index_row k2) ls2) \<noteq> []"
    using sh by (auto simp: shift_indices_def split: if_splits)
  have k2: "0 < k2"
  proof (rule ccontr)
    assume "\<not> 0 < k2"
    then have "index_row k2 l = []" for l by (simp add: index_row_def)
    then show False using cne by simp
  qed
  have ne: "ls2 \<noteq> []" using cne by auto
  have lw: "length ws2 = length ls2" using s1 s2 l0 by simp
  have wk2: "\<And>w. w \<in> set ws2 \<Longrightarrow> length w = k2" using s2(4) by blast
  from shift_indices_rows [OF k2 ne lw wk2, of in_length]
  obtain indices' s' e' where
    r: "shift_indices in_length (ws2, map (index_row k2) ls2, k2) = Inr (ws2, indices', s', e')"
    and li: "length indices' = length ls2"
    and mn: "Min (set (concat indices')) = 0"
    and rows: "\<forall>i < length ls2. indices' ! i = index_row k2 (ls2 ! i - Min (set ls2)) \<and>
              0 \<le> hd (indices' ! i) \<and> hd (indices' ! i) + int k2 \<le> in_length + s' + e'"
    by blast
  have eq: "weights = ws2" "indices = indices'" "s = s'" "e = e'" using sh r by simp_all
  have ll: "length ls2 = nat out_length" using s1 s2 lu by (simp add: ls_def)
  have "0 < length ls2" using ne by simp
  then have opos: "0 < out_length" unfolding ll by simp
  have "indices ! i \<noteq> [] \<and> length (weights ! i) = length (indices ! i) \<and>
        0 \<le> hd (indices ! i) \<and>
        hd (indices ! i) + int (length (weights ! i)) \<le> in_length + s + e"
    if i: "i < nat out_length" for i
  proof -
    have R: "indices ! i = index_row k2 (ls2 ! i - Min (set ls2))"
      "0 \<le> hd (indices ! i)" "hd (indices ! i) + int k2 \<le> in_length + s + e"
      using rows i ll unfolding eq by auto
    have li': "length (indices ! i) = k2" unfolding R(1) by simp
    have "weights ! i \<in> set ws2" using i ll lw unfolding eq by simp
    then have lwi: "length (weights ! i) = k2" using wk2 by blast
    have "indices ! i \<noteq> []" using li' k2 by auto
    then show ?thesis using R(2,3) unfolding lwi li' by simp
  qed
  then have all: "\<forall>i < nat out_length.
            indices ! i \<noteq> [] \<and> length (weights ! i) = length (indices ! i) \<and>
            0 \<le> hd (indices ! i) \<and>
            hd (indices ! i) + int (length (weights ! i)) \<le> in_length + s + e" by blast
  have "length weights = nat out_length" "length indices = nat out_length"
    "Min (set (concat indices)) = 0"
    using lw ll li mn unfolding eq by simp_all
  then show ?thesis using opos all by blast
qed

lemma calc_returns:
  assumes wk: "widen_kernel ar scale kernel_width aa = Inr kw" and kw: "0 < kw"
    and sc: "scale \<noteq> 0" and o: "0 < out_length"
  shows "\<exists>weights indices s e.
           calculate_weights_indices ar in_length out_length scale kernel_width aa
             = Inr (weights, indices, s, e)"
proof -
  define P where "P = \<lceil>kw\<rceil> + 2"
  have P3: "3 \<le> P" using kw unfolding P_def by linarith
  define u where "u = map (in_coord ar scale) (out_coords out_length)"
  define k0 where "k0 = nat P"
  define ws where "ws = map (\<lambda>v. weight_row ar scale aa v (index_row k0 (left_tap ar kw v))) u"
  define ls where "ls = map (left_tap ar kw) u"
  have lu: "length u = nat out_length" by (simp add: u_def out_coords_def)
  have run: "calculate_weights_indices ar in_length out_length scale kernel_width aa =
      seq (prune (zero_count ws 0 \<noteq> 0) 1 P (ws, map (index_row k0) ls, k0))
        (\<lambda>m. seq (prune (zero_count ws (k0 - 1) \<noteq> 0) 0 P m) (shift_indices in_length))"
    using calc_unfold [OF wk _ sc, of out_length in_length] o P3
    unfolding u_def ws_def ls_def k0_def P_def by simp
  have w0: "\<forall>w \<in> set ws. length w = k0" by (auto simp: ws_def)
  have l0: "length ws = length ls" by (simp add: ws_def ls_def)
  have f1: "int (1::nat) + (P - 2) \<le> int k0" using P3 by (simp add: k0_def)
  have P2: "2 \<le> P" using P3 by simp
  from prune_returns [OF w0 P2 f1, of "zero_count ws 0 \<noteq> 0" ls]
  obtain ws1 k1 ls1 where s1:
    "prune (zero_count ws 0 \<noteq> 0) 1 P (ws, map (index_row k0) ls, k0)
       = Inr (ws1, map (index_row k1) ls1, k1)"
    "length ws1 = length ws" "length ls1 = length ls" "\<forall>w \<in> set ws1. length w = k1"
    "k1 = k0 \<or> k1 = nat (P - 2)"
    by auto
  have f2: "int (0::nat) + (P - 2) \<le> int k1" using s1(5) P3 by (auto simp: k0_def)
  from prune_returns [OF s1(4) P2 f2, of "zero_count ws (k0 - 1) \<noteq> 0" ls1]
  obtain ws2 k2 ls2 where s2:
    "prune (zero_count ws (k0 - 1) \<noteq> 0) 0 P (ws1, map (index_row k1) ls1, k1)
       = Inr (ws2, map (index_row k2) ls2, k2)"
    "length ws2 = length ws1" "length ls2 = length ls1" "\<forall>w \<in> set ws2. length w = k2"
    "k2 = k1 \<or> k2 = nat (P - 2)"
    by auto
  have k2: "0 < k2" using s1(5) s2(5) P3 by (auto simp: k0_def)
  have ll: "length ls2 = nat out_length" using s1 s2 lu by (simp add: ls_def)
  have ne: "ls2 \<noteq> []" using ll o by auto
  have lw: "length ws2 = length ls2" using s1 s2 l0 by simp
  have wk2: "\<And>w. w \<in> set ws2 \<Longrightarrow> length w = k2" using s2(4) by blast
  from shift_indices_rows [OF k2 ne lw wk2, of in_length]
  obtain indices' s' e' where
    r: "shift_indices in_length (ws2, map (index_row k2) ls2, k2) = Inr (ws2, indices', s', e')"
    by blast
  have "calculate_weights_indices ar in_length out_length scale kernel_width aa
      = Inr (ws2, indices', s', e')"
    unfolding run s1(1) seq_Inr s2(1) by (rule r)
  then show ?thesis by blast
qed

section \<open>The rows of weights that are returned in exact arithmetic\<close>







section \<open>The claims on the weights and the indices\<close>

lemmas calc_defs = calculate_weights_indices_exact widen_kernel_exact out_coords_def in_coord_exact
  left_tap_exact index_row_def weight_row_exact normalize_row_exact kernel_weight_exact cubic_exact
  fdiv_def zero_count_def prune_def narrow_cols_def shift_indices_def Let_def


lemma calc_double:
  "calculate_weights_indices exact 1 2 2 4 True =
     Inr ([[Some (- (3 / 128)), Some (29 / 128), Some (111 / 128), Some (- (9 / 128))],
           [Some (- (9 / 128)), Some (111 / 128), Some (29 / 128), Some (- (3 / 128))]],
          [[0, 1, 2, 3], [1, 2, 3, 4]], 2, 2)"
  by (simp add: calc_defs upt_rec eval_nat_numeral)













text \<open>
  Claim C9. In every arithmetic, for every \<open>in_length\<close>, \<open>out_length\<close>, scale, kernel
  width and antialiasing flag: when \<^verbatim>\<open>calculate_weights_indices\<close> returns, it returns
  \<open>out_length\<close> rows of weights and of indices, the smallest entry of the index matrix is
  0, and for every output row the window that starts at the row's first index and has as
  many positions as the row has weights lies inside a buffer of length
  \<open>in_length + sym_len_s + sym_len_e\<close>. It does return whenever \<open>out_length \<ge> 1\<close>, the
  scale is not 0 and the kernel width, widened or not, is positive.
\<close>

theorem kernel_windows_inside_buffer:
  "(calculate_weights_indices ar in_length out_length scale kernel_width antialiasing
      = Inr (weights, indices, sym_len_s, sym_len_e) \<longrightarrow>
      length weights = nat out_length \<and> length indices = nat out_length \<and>
      Min (set (concat indices)) = 0 \<and>
      (\<forall>i < nat out_length.
         indices ! i \<noteq> [] \<and> length (weights ! i) = length (indices ! i) \<and>
         0 \<le> hd (indices ! i) \<and>
         hd (indices ! i) + int (length (weights ! i))
           \<le> in_length + sym_len_s + sym_len_e)) \<and>
   (0 < out_length \<and> scale \<noteq> 0 \<and>
    (\<exists>kw. widen_kernel ar scale kernel_width antialiasing = Inr kw \<and> 0 < kw) \<longrightarrow>
      (\<exists>weights indices sym_len_s sym_len_e.
         calculate_weights_indices ar in_length out_length scale kernel_width antialiasing
           = Inr (weights, indices, sym_len_s, sym_len_e)))"
proof (rule conjI)
  show "calculate_weights_indices ar in_length out_length scale kernel_width antialiasing
      = Inr (weights, indices, sym_len_s, sym_len_e) \<longrightarrow>
      length weights = nat out_length \<and> length indices = nat out_length \<and>
      Min (set (concat indices)) = 0 \<and>
      (\<forall>i < nat out_length.
         indices ! i \<noteq> [] \<and> length (weights ! i) = length (indices ! i) \<and>
         0 \<le> hd (indices ! i) \<and>
         hd (indices ! i) + int (length (weights ! i))
           \<le> in_length + sym_len_s + sym_len_e)"
    using calc_structure [of ar in_length out_length scale kernel_width antialiasing
        weights indices sym_len_s sym_len_e]
    by blast
next
  show "0 < out_length \<and> scale \<noteq> 0 \<and>
    (\<exists>kw. widen_kernel ar scale kernel_width antialiasing = Inr kw \<and> 0 < kw) \<longrightarrow>
      (\<exists>weights indices sym_len_s sym_len_e.
         calculate_weights_indices ar in_length out_length scale kernel_width antialiasing
           = Inr (weights, indices, sym_len_s, sym_len_e))"
    using calc_returns [of ar scale kernel_width antialiasing _ out_length in_length]
    by blast
qed

theorem kernel_windows_inside_buffer_witness:
  "calculate_weights_indices exact 1 2 2 4 True =
     Inr ([[Some (- (3 / 128)), Some (29 / 128), Some (111 / 128), Some (- (9 / 128))],
           [Some (- (9 / 128)), Some (111 / 128), Some (29 / 128), Some (- (3 / 128))]],
          [[0, 1, 2, 3], [1, 2, 3, 4]], 2, 2) \<and>
   Min (set (concat [[0, 1, 2, 3], [1, 2, 3, 4 :: int]])) = 0 \<and>
   hd [0, 1, 2, 3 :: int] + 4 \<le> 1 + 2 + 2 \<and> hd [1, 2, 3, 4 :: int] + 4 \<le> 1 + 2 + 2 \<and>
   (0::int) < 2 \<and> (2::real) \<noteq> 0 \<and> widen_kernel exact 2 4 True = Inr 4 \<and> (0::real) < 4 \<and>
   (\<exists>weights indices sym_len_s sym_len_e.
      calculate_weights_indices exact 1 2 2 4 True = Inr (weights, indices, sym_len_s, sym_len_e) \<and>
      length weights = nat 2 \<and> length indices = nat 2 \<and>
      Min (set (concat indices)) = 0 \<and>
      (\<forall>i < nat 2.
         indices ! i \<noteq> [] \<and> length (weights ! i) = length (indices ! i) \<and>
         0 \<le> hd (indices ! i) \<and>
         hd (indices ! i) + int (length (weights ! i)) \<le> 1 + sym_len_s + sym_len_e))"
proof -
  have w: "widen_kernel exact 2 4 True = Inr 4" by (simp add: widen_kernel_exact)
  have p: "(0::int) < 2 \<and> (2::real) \<noteq> 0 \<and>
      (\<exists>kw. widen_kernel exact 2 4 True = Inr kw \<and> 0 < kw)"
    using w by simp
  from kernel_windows_inside_buffer
    [of exact 1 2 2 4 True, THEN conjunct2, THEN mp, OF p]
  obtain weights indices sym_len_s sym_len_e where
    c: "calculate_weights_indices exact 1 2 2 4 True = Inr (weights, indices, sym_len_s, sym_len_e)"
    by blast
  from kernel_windows_inside_buffer
    [of exact 1 2 2 4 True weights indices sym_len_s sym_len_e, THEN conjunct1, THEN mp, OF c]
  have "\<exists>weights indices sym_len_s sym_len_e.
      calculate_weights_indices exact 1 2 2 4 True = Inr (weights, indices, sym_len_s, sym_len_e) \<and>
      length weights = nat 2 \<and> length indices = nat 2 \<and>
      Min (set (concat indices)) = 0 \<and>
      (\<forall>i < nat 2.
         indices ! i \<noteq> [] \<and> length (weights ! i) = length (indices ! i) \<and>
         0 \<le> hd (indices ! i) \<and>
         hd (indices ! i) + int (length (weights ! i)) \<le> 1 + sym_len_s + sym_len_e)"
    using c by blast
  then show ?thesis using w by (intro conjI calc_double) simp_all
qed

section \<open>The loop of imresize\<close>

lemma py_bound_nonneg: "0 \<le> k \<Longrightarrow> py_bound n k = min (nat k) n"
  by (simp add: py_bound_def)

lemma filter_channel_ok:
  assumes "c < channels aug" and "irow \<noteq> []" and "0 \<le> hd irow"
    and "hd irow + int (length w) \<le> int (rows aug)"
  shows "filter_channel aug irow w i c out
           = Inr (put_row out c i (window_dot aug c (nat (hd irow)) w))"
proof -
  obtain idx rest where ir: "irow = idx # rest" using assms(2) by (cases irow) auto
  have idx: "0 \<le> idx" "idx + int (length w) \<le> int (rows aug)" using assms(3,4) by (simp_all add: ir)
  have a: "py_bound (rows aug) idx = nat idx" using idx by (simp add: py_bound_def)
  have b: "py_bound (rows aug) (idx + int (length w)) = nat idx + length w"
    using idx by (simp add: py_bound_def nat_add_distrib)
  show ?thesis using assms(1) by (simp add: filter_channel_def ir a b Let_def)
qed

lemma put_row_fields [simp]:
  "channels (put_row out c i v) = channels out"
  "rows (put_row out c i v) = rows out"
  "cols (put_row out c i v) = cols out"
  "entry (put_row out c i v) c' y x = (if c' = c \<and> y = i then v x else entry out c' y x)"
  by (simp_all add: put_row_def)

lemma filter_rows_ok:
  assumes "3 \<le> channels aug"
    and "\<forall>p \<in> set rws. fst p \<noteq> [] \<and> 0 \<le> hd (fst p) \<and>
           hd (fst p) + int (length (snd p)) \<le> int (rows aug)"
  shows "\<exists>t. filter_rows aug rws i out = Inr t \<and>
           channels t = channels out \<and> rows t = rows out \<and> cols t = cols out \<and>
           (\<forall>c y x. entry t c y x =
              (if c < 3 \<and> i \<le> y \<and> y < i + length rws
               then window_dot aug c (nat (hd (fst (rws ! (y - i))))) (snd (rws ! (y - i))) x
               else entry out c y x))"
  using assms(2)
proof (induction rws arbitrary: i out)
  case Nil
  then show ?case by auto
next
  case (Cons p rws)
  obtain irow w where p: "p = (irow, w)" by (cases p)
  have rowok: "irow \<noteq> []" "0 \<le> hd irow" "hd irow + int (length w) \<le> int (rows aug)"
    using Cons.prems by (simp_all add: p)
  define v where "v = (\<lambda>c. window_dot aug c (nat (hd irow)) w)"
  define out2 where "out2 = put_row (put_row (put_row out 0 i (v 0)) 1 i (v 1)) 2 i (v 2)"
  have c0: "0 < channels aug" "Suc 0 < channels aug" "2 < channels aug" using assms(1) by simp_all
  have step: "filter_rows aug (p # rws) i out = filter_rows aug rws (Suc i) out2"
    unfolding p
    by (simp add: filter_channel_ok [OF c0(1) rowok] filter_channel_ok [OF c0(2) rowok]
        filter_channel_ok [OF c0(3) rowok] out2_def v_def)
  have "\<forall>p \<in> set rws. fst p \<noteq> [] \<and> 0 \<le> hd (fst p) \<and>
           hd (fst p) + int (length (snd p)) \<le> int (rows aug)"
    using Cons.prems by simp
  from Cons.IH [OF this, of "Suc i" out2]
  obtain t where t: "filter_rows aug rws (Suc i) out2 = Inr t"
    "channels t = channels out2" "rows t = rows out2" "cols t = cols out2"
    "\<forall>c y x. entry t c y x =
              (if c < 3 \<and> Suc i \<le> y \<and> y < Suc i + length rws
               then window_dot aug c (nat (hd (fst (rws ! (y - Suc i))))) (snd (rws ! (y - Suc i))) x
               else entry out2 c y x)"
    by blast
  have e: "entry t c y x =
              (if c < 3 \<and> i \<le> y \<and> y < i + length (p # rws)
               then window_dot aug c (nat (hd (fst ((p # rws) ! (y - i))))) (snd ((p # rws) ! (y - i))) x
               else entry out c y x)" for c y x
  proof (cases "y = i")
    case True
    have "c < 3 \<longleftrightarrow> c = 0 \<or> c = 1 \<or> c = 2" by auto
    then show ?thesis using t(5) True by (auto simp: out2_def v_def p)
  next
    case False
    then show ?thesis using t(5) by (auto simp: out2_def nth_Cons' Suc_diff_Suc)
  qed
  show ?case
    unfolding step using t(1-4) e by (auto simp: out2_def)
qed

section \<open>The symmetric extension\<close>

lemma copy_rows_ok:
  assumes "0 \<le> start" "0 \<le> len" "start + len \<le> int (rows dst)"
    and "broadcastable (channels src) (channels dst)"
    and "broadcastable (rows src) (nat len)"
    and "broadcastable (cols src) (cols dst)"
  shows "copy_rows dst start len src =
           Inr (dst\<lparr>entry := \<lambda>c y x.
                  if nat start \<le> y \<and> y < nat start + nat len
                  then entry src (bidx (channels src) c) (bidx (rows src) (y - nat start))
                         (bidx (cols src) x)
                  else entry dst c y x\<rparr>)"
  using assms by (simp add: copy_rows_def Let_def)

lemma broadcastable_refl [simp]: "broadcastable a a"
  by (simp add: broadcastable_def)

lemma bidx_same: "i < a \<Longrightarrow> bidx a i = i"
  by (auto simp: bidx_def)

lemma aug_entry:
  assumes fit: "pad_fits n s e" and n: "n = rows img"
    and y: "y < n + nat s + nat e" and c: "c < channels img" and x: "x < cols img"
  defines "src2 \<equiv> flip_rows (slice_rows img 0 (py_bound n s))"
  defines "src3 \<equiv> flip_rows (slice_rows img (py_bound n (- e)) n)"
  shows "(if nat s + n \<le> y \<and> y < nat s + n + nat e
          then entry src3 (bidx (channels src3) c) (bidx (rows src3) (y - (nat s + n)))
                 (bidx (cols src3) x)
          else if y < nat s
          then entry src2 (bidx (channels src2) c) (bidx (rows src2) y) (bidx (cols src2) x)
          else if nat s \<le> y \<and> y < nat s + n
          then entry img (bidx (channels img) c) (bidx (rows img) (y - nat s)) (bidx (cols img) x)
          else junk c y x)
         = ext_entry img (nat s) (nat e) c y x"
proof -
  have s0: "0 \<le> s" and e0: "0 \<le> e"
    and b2: "broadcastable (py_bound n s) (nat s)"
    and b3: "broadcastable (n - py_bound n (- e)) (nat e)"
    using fit by (simp_all add: pad_fits_def)
  have ch: "bidx (channels img) c = c" "bidx (cols img) x = x"
    using c x by (simp_all add: bidx_same)
  have f2: "channels src2 = channels img" "cols src2 = cols img" "rows src2 = py_bound n s"
    by (simp_all add: src2_def flip_rows_def slice_rows_def)
  have f3: "channels src3 = channels img" "cols src3 = cols img" "rows src3 = n - py_bound n (- e)"
    by (simp_all add: src3_def flip_rows_def slice_rows_def)
  consider (head) "y < nat s" | (mid) "nat s \<le> y" "y < nat s + n"
    | (tail) "nat s + n \<le> y" "y < nat s + n + nat e"
    using y by linarith
  then show ?thesis
  proof cases
    case head
    have p: "py_bound n s = min (nat s) n" using s0 by (simp add: py_bound_def)
    have "min (nat s) n = nat s \<or> min (nat s) n = 1" using b2 by (simp add: broadcastable_def p)
    then have "entry src2 c (bidx (rows src2) y) x = entry img c (min (nat s - 1 - y) (n - 1)) x"
    proof
      assume a: "min (nat s) n = nat s"
      then have "bidx (min (nat s) n) y = y" using head by (simp add: bidx_same)
      moreover have "nat s - 1 - y \<le> n - 1" using a head by linarith
      ultimately show ?thesis
        using a head by (simp add: src2_def flip_rows_def slice_rows_def p min_absorb1)
    next
      assume a: "min (nat s) n = 1"
      then have "n = 1 \<or> nat s = 1" by linarith
      then show ?thesis
        using a head by (auto simp: src2_def flip_rows_def slice_rows_def p bidx_def)
    qed
    then show ?thesis using head by (simp add: ext_entry_def f2 ch Let_def n [symmetric])
  next
    case mid
    then have "bidx (rows img) (y - nat s) = y - nat s" by (simp add: bidx_same n [symmetric])
    then show ?thesis using mid by (simp add: ext_entry_def ch Let_def n [symmetric])
  next
    case tail
    then have epos: "0 < e" by linarith
    define q where "q = py_bound n (- e)"
    have q: "q = n - nat e" using epos by (simp add: q_def py_bound_def nat_diff_distrib)
    have r: "n - q = min n (nat e)" unfolding q by linarith
    define j where "j = y - (nat s + n)"
    have j: "j < nat e" using tail by (simp add: j_def)
    have ent: "entry src3 c j' x = entry img c (q + (n - q - 1 - j')) x" for j'
      by (simp add: src3_def flip_rows_def slice_rows_def q_def)
    have rs: "rows src3 = n - q" by (simp add: f3 q_def)
    have "min n (nat e) = nat e \<or> min n (nat e) = 1"
      using b3 by (simp add: broadcastable_def r q_def [symmetric])
    then have "q + (n - q - 1 - bidx (n - q) j) = n - 1 - min j (n - 1)"
    proof
      assume a: "min n (nat e) = nat e"
      then have le: "nat e \<le> n" by linarith
      have "bidx (n - q) j = j" unfolding r a using j by (rule bidx_same)
      moreover have "min j (n - 1) = j" using le j by linarith
      moreover have "q + (n - q - 1 - j) = n - 1 - j" unfolding q using le j by linarith
      ultimately show ?thesis by simp
    next
      assume a: "min n (nat e) = 1"
      then have b0: "bidx (n - q) j = 0" unfolding r by (simp add: bidx_def)
      have "n = 1 \<or> nat e = 1" using a by linarith
      then have "min j (n - 1) = 0" using j by auto
      moreover have "q + (n - q - 1 - 0) = n - 1" unfolding q using a by linarith
      ultimately show ?thesis unfolding b0 by simp
    qed
    then have "entry src3 c (bidx (rows src3) j) x = entry img c (n - 1 - min j (n - 1)) x"
      unfolding ent rs by simp
    then show ?thesis
      using tail by (simp add: ext_entry_def f3 ch Let_def n [symmetric] j_def)
  qed
qed

section \<open>One block of imresize\<close>

lemma resize_rows_ok:
  assumes ch: "3 \<le> channels img"
    and len: "length weights = length indices"
    and out: "out_len = int (length indices)"
    and rowsok: "\<forall>i < length indices. indices ! i \<noteq> [] \<and> 0 \<le> hd (indices ! i) \<and>
        hd (indices ! i) + int (length (weights ! i)) \<le> int (rows img) + s + e"
    and fit: "pad_fits (rows img) s e"
  shows "\<exists>t. resize_rows ja jo (weights, indices, s, e) out_len img = Inr t \<and>
           channels t = channels img \<and> rows t = length indices \<and> cols t = cols img \<and>
           (\<forall>c y x. c < 3 \<longrightarrow> y < length indices \<longrightarrow> x < cols img \<longrightarrow>
              entry t c y x =
                fsum (map (\<lambda>j. fmul (weights ! y ! j)
                        (ext_entry img (nat s) (nat e) c (nat (hd (indices ! y)) + j) x))
                      [0..<length (weights ! y)]))"
proof -
  define n where "n = rows img"
  have s0: "0 \<le> s" and e0: "0 \<le> e"
    and b2: "broadcastable (py_bound n s) (nat s)"
    and b3: "broadcastable (n - py_bound n (- e)) (nat e)"
    using fit by (simp_all add: pad_fits_def n_def)
  define src2 where "src2 = flip_rows (slice_rows img 0 (py_bound n s))"
  define src3 where "src3 = flip_rows (slice_rows img (py_bound n (- e)) n)"
  have f2: "channels src2 = channels img" "cols src2 = cols img" "rows src2 = py_bound n s"
    by (simp_all add: src2_def flip_rows_def slice_rows_def)
  have f3: "channels src3 = channels img" "cols src3 = cols img" "rows src3 = n - py_bound n (- e)"
    by (simp_all add: src3_def flip_rows_def slice_rows_def)
  define aug0 :: "fl tensor3" where
    "aug0 = \<lparr>channels = channels img, rows = n + nat s + nat e, cols = cols img, entry = ja\<rparr>"
  have a0: "FloatTensor ja (channels img) (int (rows img) + s + e) (cols img) = Inr aug0"
    using s0 e0 by (simp add: FloatTensor_def aug0_def n_def nat_add_distrib)
  define aug1 where "aug1 = aug0\<lparr>entry := \<lambda>c y x.
      if nat s \<le> y \<and> y < nat s + nat (int (rows img))
      then entry img (bidx (channels img) c) (bidx (rows img) (y - nat s)) (bidx (cols img) x)
      else entry aug0 c y x\<rparr>"
  have a1: "copy_rows aug0 s (int (rows img)) img = Inr aug1"
    unfolding aug1_def
    by (rule copy_rows_ok) (use s0 e0 in \<open>simp_all add: aug0_def n_def\<close>)
  define aug2 where "aug2 = aug1\<lparr>entry := \<lambda>c y x.
      if nat 0 \<le> y \<and> y < nat 0 + nat s
      then entry src2 (bidx (channels src2) c) (bidx (rows src2) (y - nat 0)) (bidx (cols src2) x)
      else entry aug1 c y x\<rparr>"
  have a2: "copy_rows aug1 0 s src2 = Inr aug2"
    unfolding aug2_def
    by (rule copy_rows_ok) (use s0 e0 b2 in \<open>simp_all add: aug1_def aug0_def f2\<close>)
  define aug3 where "aug3 = aug2\<lparr>entry := \<lambda>c y x.
      if nat (s + int n) \<le> y \<and> y < nat (s + int n) + nat e
      then entry src3 (bidx (channels src3) c) (bidx (rows src3) (y - nat (s + int n)))
             (bidx (cols src3) x)
      else entry aug2 c y x\<rparr>"
  have a3: "copy_rows aug2 (s + int n) e src3 = Inr aug3"
    unfolding aug3_def
    by (rule copy_rows_ok) (use s0 e0 b3 in \<open>simp_all add: aug2_def aug1_def aug0_def f3\<close>)
  define out0 :: "fl tensor3" where
    "out0 = \<lparr>channels = channels img, rows = length indices, cols = cols img, entry = jo\<rparr>"
  have o0: "FloatTensor jo (channels img) out_len (cols img) = Inr out0"
    by (simp add: FloatTensor_def out0_def out)
  have shape3: "channels aug3 = channels img" "rows aug3 = n + nat s + nat e" "cols aug3 = cols img"
    by (simp_all add: aug3_def aug2_def aug1_def aug0_def)
  have ent3: "entry aug3 c y x = ext_entry img (nat s) (nat e) c y x"
    if "y < n + nat s + nat e" "c < channels img" "x < cols img" for c y x
  proof -
    have ns: "nat (s + int (rows img)) = nat s + rows img" using s0 by (simp add: nat_add_distrib)
    have "entry aug3 c y x =
        (if nat s + n \<le> y \<and> y < nat s + n + nat e
          then entry src3 (bidx (channels src3) c) (bidx (rows src3) (y - (nat s + n)))
                 (bidx (cols src3) x)
          else if y < nat s
          then entry src2 (bidx (channels src2) c) (bidx (rows src2) y) (bidx (cols src2) x)
          else if nat s \<le> y \<and> y < nat s + n
          then entry img (bidx (channels img) c) (bidx (rows img) (y - nat s)) (bidx (cols img) x)
          else ja c y x)"
      by (simp add: aug3_def aug2_def aug1_def aug0_def ns n_def)
    also have "\<dots> = ext_entry img (nat s) (nat e) c y x"
      unfolding src2_def src3_def
      by (rule aug_entry [OF _ n_def that]) (simp add: fit n_def)
    finally show ?thesis .
  qed
  have run: "resize_rows ja jo (weights, indices, s, e) out_len img
      = filter_rows aug3 (zip indices weights) 0 out0"
    by (simp add: resize_rows_def a0 [folded n_def] a1 [folded n_def] a2 a3 o0
        src2_def [symmetric] src3_def [symmetric] n_def [symmetric])
  have ch3: "3 \<le> channels aug3" using ch by (simp add: shape3)
  have zok: "\<forall>p \<in> set (zip indices weights). fst p \<noteq> [] \<and> 0 \<le> hd (fst p) \<and>
           hd (fst p) + int (length (snd p)) \<le> int (rows aug3)"
  proof
    fix p assume "p \<in> set (zip indices weights)"
    then obtain i where i: "i < length indices" "p = (indices ! i, weights ! i)"
      using len by (auto simp: set_zip)
    have "int (rows aug3) = int (rows img) + s + e" using s0 e0 by (simp add: shape3 n_def)
    then show "fst p \<noteq> [] \<and> 0 \<le> hd (fst p) \<and>
           hd (fst p) + int (length (snd p)) \<le> int (rows aug3)"
      using rowsok i by simp
  qed
  from filter_rows_ok [OF ch3 zok, of 0 out0]
  obtain t where t: "filter_rows aug3 (zip indices weights) 0 out0 = Inr t"
    "channels t = channels out0" "rows t = rows out0" "cols t = cols out0"
    and te: "\<forall>c y x. entry t c y x =
              (if c < 3 \<and> 0 \<le> y \<and> y < 0 + length (zip indices weights)
               then window_dot aug3 c (nat (hd (fst (zip indices weights ! (y - 0)))))
                      (snd (zip indices weights ! (y - 0))) x
               else entry out0 c y x)"
    by blast
  have ent: "entry t c y x =
                fsum (map (\<lambda>j. fmul (weights ! y ! j)
                        (ext_entry img (nat s) (nat e) c (nat (hd (indices ! y)) + j) x))
                      [0..<length (weights ! y)])"
    if c: "c < 3" and y: "y < length indices" and x: "x < cols img" for c y x
  proof -
    have z: "zip indices weights ! y = (indices ! y, weights ! y)" using y len by simp
    have "entry t c y x = window_dot aug3 c (nat (hd (indices ! y))) (weights ! y) x"
      using te c y len by (simp add: z)
    also have "\<dots> = fsum (map (\<lambda>j. fmul (weights ! y ! j)
                        (entry aug3 c (nat (hd (indices ! y)) + j) x)) [0..<length (weights ! y)])"
      by (simp add: window_dot_def)
    also have "map (\<lambda>j. fmul (weights ! y ! j)
                        (entry aug3 c (nat (hd (indices ! y)) + j) x)) [0..<length (weights ! y)]
        = map (\<lambda>j. fmul (weights ! y ! j)
                        (ext_entry img (nat s) (nat e) c (nat (hd (indices ! y)) + j) x))
            [0..<length (weights ! y)]"
    proof (rule map_cong [OF refl])
      fix j assume "j \<in> set [0..<length (weights ! y)]"
      then have j: "j < length (weights ! y)" by simp
      have "0 \<le> hd (indices ! y)"
        "hd (indices ! y) + int (length (weights ! y)) \<le> int (rows img) + s + e"
        using rowsok y by simp_all
      then have "nat (hd (indices ! y)) + j < n + nat s + nat e"
        using j s0 e0 unfolding n_def by linarith
      moreover have "c < channels img" using c ch by simp
      ultimately show "fmul (weights ! y ! j) (entry aug3 c (nat (hd (indices ! y)) + j) x)
          = fmul (weights ! y ! j)
              (ext_entry img (nat s) (nat e) c (nat (hd (indices ! y)) + j) x)"
        using ent3 x by simp
    qed
    finally show ?thesis .
  qed
  show ?thesis
    unfolding run using t ent by (simp add: out0_def)
qed




lemma to_fl_fields [simp]:
  "channels (to_fl t) = channels t" "rows (to_fl t) = rows t" "cols (to_fl t) = cols t"
  "entry (to_fl t) c y x = Some (entry t c y x)"
  by (simp_all add: to_fl_def)

lemma swap_axes_fields [simp]:
  "channels (swap_axes t) = channels t" "rows (swap_axes t) = cols t"
  "cols (swap_axes t) = rows t" "entry (swap_axes t) c y x = entry t c x y"
  by (simp_all add: swap_axes_def)

section \<open>The claims on imresize\<close>


lemma ext_entry_in_range:
  assumes "0 < rows img"
  shows "\<exists>r < rows img. ext_entry img s e c y x = entry img c r x"
proof -
  define n where "n = rows img"
  have n: "0 < n" using assms by (simp add: n_def)
  consider "y < s" | "s \<le> y" "y < s + n" | "s + n \<le> y" by linarith
  then show ?thesis
  proof cases
    case 1
    have "min (s - 1 - y) (n - 1) < n" using n by linarith
    then show ?thesis using 1 by (auto simp: ext_entry_def Let_def n_def)
  next
    case 2
    then have "y - s < n" by linarith
    then show ?thesis using 2 by (auto simp: ext_entry_def Let_def n_def)
  next
    case 3
    have "n - 1 - min (y - s - n) (n - 1) < n" using n by linarith
    then show ?thesis using 3 by (auto simp: ext_entry_def Let_def n_def)
  qed
qed

lemma ext_entry_mid:
  "s \<le> y \<Longrightarrow> y < s + rows img \<Longrightarrow> ext_entry img s e c y x = entry img c (y - s) x"
  by (simp add: ext_entry_def Let_def)

lemma pruned_row_scale_one:
  "pruned_row 1 aa (real (Suc i)) = [Some 0, Some 1, Some 0, Some 0]"
proof -
  have ks: "kernel_support 1 aa = 4" by (simp add: kernel_support_def)
  have tp: "taps 1 aa = 6" by (simp add: taps_def ks)
  have lt: "left_tap exact 4 (real (Suc i)) = int i - 1"
  proof -
    have "real (Suc i) - 4 / 2 = real_of_int (int i - 1)" by simp
    then show ?thesis unfolding left_tap_exact by (simp only: floor_of_int)
  qed
  have kw: "kernel_weight exact 1 aa (real (Suc i)) j = cubic exact (real (Suc i) - real_of_int j)" for j
    by (simp add: kernel_weight_exact)
  have c: "cubic exact 2 = 0" "cubic exact 1 = 0" "cubic exact 0 = 1" "cubic exact (- 1) = 0" "cubic exact (- 2) = 0"
    "cubic exact (- 3) = 0"
    by (simp_all add: cubic_exact)
  have row: "map (kernel_weight exact 1 aa (real (Suc i))) (index_row 6 (int i - 1))
      = [0, 0, 1, 0, 0, 0]"
    unfolding kw by (simp add: index_row_def upt_rec eval_nat_numeral c)
  show ?thesis
    by (simp add: pruned_row_def full_row_def ks tp lt weight_row_exact row normalize_row_exact fdiv_def
        del: of_nat_Suc)
qed

lemma calc_scale_one:
  assumes n: "0 < n"
  shows "\<exists>weights indices.
           calculate_weights_indices exact (int n) (int n) 1 4 aa = Inr (weights, indices, 1, 2) \<and>
           length weights = n \<and> length indices = n \<and>
           (\<forall>y < n. weights ! y = [Some 0, Some 1, Some 0, Some 0] \<and>
                     indices ! y = index_row 4 (int y))"
proof -
  define u where "u = map (in_coord exact 1) (out_coords (int n))"
  define ls where "ls = map (\<lambda>v. left_tap exact (kernel_support 1 aa) v + 1) u"
  have ks: "kernel_support 1 aa = 4" by (simp add: kernel_support_def)
  have tp: "taps 1 aa - 2 = 4" by (simp add: taps_def ks)
  have u: "u = map (\<lambda>i. real (Suc i)) [0..<n]"
    by (simp add: u_def out_coords_def in_coord_exact)
  have lt: "left_tap exact 4 (real (Suc i)) + 1 = int i" for i
  proof -
    have "real (Suc i) - 4 / 2 = real_of_int (int i - 1)" by simp
    then have "left_tap exact 4 (real (Suc i)) = int i - 1"
      unfolding left_tap_exact by (simp only: floor_of_int)
    then show ?thesis by simp
  qed
  have ls: "ls = map int [0..<n]" by (simp add: ls_def u ks lt comp_def del: of_nat_Suc)
  have sls: "set ls = int ` {0..<n}" by (simp add: ls)
  have mn: "Min (set ls) = 0"
  proof (rule Min_eqI)
    show "0 \<in> set ls" using n unfolding sls by force
  qed (auto simp: sls)
  have mx: "Max (set ls) = int n - 1"
  proof (rule Max_eqI)
    have "int (n - 1) \<in> int ` {0..<n}" using n by (intro imageI) simp
    then show "int n - 1 \<in> set ls" using n unfolding sls by (simp add: of_nat_diff)
  qed (auto simp: sls)
  have o: "0 < int n" using n by simp
  have p1: "(0::real) < 1 \<or> \<not> aa" and p2: "(1::real) \<noteq> 0" by simp_all
  from calc_rows [OF p1 p2 o, of "int n"]
  obtain indices sym_len_s sym_len_e where
    c: "calculate_weights_indices exact (int n) (int n) 1 4 aa
          = Inr (map (pruned_row 1 aa) u, indices, sym_len_s, sym_len_e)"
    and li: "length indices = nat (int n)"
    and rows: "\<forall>i < nat (int n). indices ! i = index_row (taps 1 aa - 2) (ls ! i - Min (set ls)) \<and>
              0 \<le> hd (indices ! i) \<and>
              hd (indices ! i) + int (taps 1 aa - 2) \<le> int n + sym_len_s + sym_len_e"
    and s: "sym_len_s = 1 - Min (set ls)"
    and e: "sym_len_e = Max (set ls) + int (taps 1 aa - 2) - 1 - int n"
    unfolding u_def ls_def by (auto simp del: of_nat_less_0_iff)
  have s1: "sym_len_s = 1" by (simp add: s mn)
  have e2: "sym_len_e = 2" by (simp add: e mx tp)
  have w: "map (pruned_row 1 aa) u ! y = [Some 0, Some 1, Some 0, Some 0]" if "y < n" for y
    using that by (simp add: u pruned_row_scale_one del: of_nat_Suc)
  have i: "indices ! y = index_row 4 (int y)" if "y < n" for y
  proof -
    from rows that
    have "indices ! y = index_row (taps 1 aa - 2) (ls ! y - Min (set ls))" by simp
    moreover have "ls ! y = int y" using that by (simp add: ls)
    ultimately show ?thesis unfolding mn tp by simp
  qed
  show ?thesis
    using c li w i by (auto simp: s1 e2 u)
qed

lemma fsum_identity_window:
  assumes "a = Some va" "b = Some vb" "c = Some vc" "d = Some vd"
  shows "fsum [fmul (Some 0) a, fmul (Some 1) b, fmul (Some 0) c, fmul (Some 0) d] = Some vb"
  using assms by (simp add: fsum_def fmul_def fadd_def)

lemma resize_rows_identity:
  fixes img :: "fl tensor3"
  assumes ch: "3 \<le> channels img" and n: "0 < rows img"
    and lw: "length weights = rows img" and li: "length indices = rows img"
    and rw: "\<forall>y < rows img. weights ! y = [Some 0, Some 1, Some 0, Some 0] \<and>
                indices ! y = index_row 4 (int y)"
    and fin: "\<forall>c < 3. \<forall>y < rows img. \<forall>x < cols img. entry img c y x = Some (f c y x)"
  shows "\<exists>t. resize_rows ja jo (weights, indices, 1, 2) (int (rows img)) img = Inr t \<and>
           channels t = channels img \<and> rows t = rows img \<and> cols t = cols img \<and>
           (\<forall>c < 3. \<forall>y < rows img. \<forall>x < cols img. entry t c y x = Some (f c y x))"
proof -
  have hd4: "hd (index_row 4 l) = l" for l
    by (simp add: index_row_def upt_rec eval_nat_numeral)
  have fit: "pad_fits (rows img) 1 2"
    using n by (auto simp: pad_fits_def broadcastable_def py_bound_def)
  have rowsok: "\<forall>i < length indices. indices ! i \<noteq> [] \<and> 0 \<le> hd (indices ! i) \<and>
        hd (indices ! i) + int (length (weights ! i)) \<le> int (rows img) + 1 + 2"
  proof (intro allI impI)
    fix i assume "i < length indices"
    then have i: "i < rows img" by (simp add: li)
    then have "weights ! i = [Some 0, Some 1, Some 0, Some 0]" "indices ! i = index_row 4 (int i)"
      using rw by simp_all
    then show "indices ! i \<noteq> [] \<and> 0 \<le> hd (indices ! i) \<and>
        hd (indices ! i) + int (length (weights ! i)) \<le> int (rows img) + 1 + 2"
      using i by (simp add: hd4) (simp add: index_row_def)
  qed
  from resize_rows_ok [OF ch _ _ rowsok fit, of "int (rows img)" ja jo]
  obtain t where t: "resize_rows ja jo (weights, indices, 1, 2) (int (rows img)) img = Inr t"
    "channels t = channels img" "rows t = length indices" "cols t = cols img"
    and te: "\<forall>c y x. c < 3 \<longrightarrow> y < length indices \<longrightarrow> x < cols img \<longrightarrow>
              entry t c y x =
                fsum (map (\<lambda>j. fmul (weights ! y ! j)
                        (ext_entry img (nat 1) (nat 2) c (nat (hd (indices ! y)) + j) x))
                      [0..<length (weights ! y)])"
    using lw li by auto
  have ent: "entry t c y x = Some (f c y x)" if c: "c < 3" and y: "y < rows img" and x: "x < cols img"
    for c y x
  proof -
    have w: "weights ! y = [Some 0, Some 1, Some 0, Some 0]" and i: "indices ! y = index_row 4 (int y)"
      using rw y by simp_all
    have some: "\<exists>v. ext_entry img 1 2 c z x = Some v" for z
    proof -
      obtain r where "r < rows img" "ext_entry img 1 2 c z x = entry img c r x"
        using ext_entry_in_range [OF n] by blast
      then show ?thesis using fin c x by simp
    qed
    obtain v0 v2 v3 where v: "ext_entry img 1 2 c y x = Some v0"
      "ext_entry img 1 2 c (y + 2) x = Some v2" "ext_entry img 1 2 c (y + 3) x = Some v3"
      using some by meson
    have mid: "ext_entry img 1 2 c (y + 1) x = Some (f c y x)"
      using ext_entry_mid [of 1 "y + 1" img 2 c x] y fin c x by simp
    have "entry t c y x =
        fsum (map (\<lambda>j. fmul (weights ! y ! j)
                        (ext_entry img (nat 1) (nat 2) c (nat (hd (indices ! y)) + j) x))
                      [0..<length (weights ! y)])"
      using te c y x li by simp
    also have "\<dots> = fsum [fmul (Some 0) (ext_entry img 1 2 c y x),
                          fmul (Some 1) (ext_entry img 1 2 c (y + 1) x),
                          fmul (Some 0) (ext_entry img 1 2 c (y + 2) x),
                          fmul (Some 0) (ext_entry img 1 2 c (y + 3) x)]"
    proof -
      have h: "nat (hd (indices ! y)) = y" by (simp add: i hd4)
      have up: "[0..<length (weights ! y)] = [0, 1, 2, 3]"
        by (simp add: w upt_rec eval_nat_numeral)
      show ?thesis unfolding h up by (simp add: w)
    qed
    also have "\<dots> = Some (f c y x)"
      by (rule fsum_identity_window [OF v(1) mid v(2) v(3)])
    finally show ?thesis .
  qed
  show ?thesis using t ent li by auto
qed

text \<open>
  Claim C5. For every image with at least 3 channels, at least one row and at least one
  column, \<^verbatim>\<open>imresize\<close> with scale 1 raises nothing and returns a tensor of the shape of
  the input whose channels 0, 1 and 2 are the input's, unchanged: an RGB image is
  returned unchanged. The arithmetic is the exact one; at scale 1 the operands are whole
  numbers and halves.
\<close>

theorem imresize_scale_one_identity:
  fixes img :: "real tensor3"
  assumes ch: "3 \<le> channels img" and h: "0 < rows img" and w: "0 < cols img"
  shows "\<exists>t. imresize exact junk img 1 antialiasing = Inr t \<and>
           channels t = channels img \<and> rows t = rows img \<and> cols t = cols img \<and>
           (\<forall>c < 3. \<forall>y < rows img. \<forall>x < cols img. entry t c y x = Some (entry img c y x))"
proof -
  from calc_scale_one [OF h, of antialiasing]
  obtain wh ih where
    cH: "calculate_weights_indices exact (int (rows img)) (int (rows img)) 1 4 antialiasing
           = Inr (wh, ih, 1, 2)"
    and lH: "length wh = rows img" "length ih = rows img"
    and rH: "\<forall>y < rows img. wh ! y = [Some 0, Some 1, Some 0, Some 0] \<and>
               ih ! y = index_row 4 (int y)"
    by blast
  from calc_scale_one [OF w, of antialiasing]
  obtain ww iw where
    cW: "calculate_weights_indices exact (int (cols img)) (int (cols img)) 1 4 antialiasing
           = Inr (ww, iw, 1, 2)"
    and lW: "length ww = cols img" "length iw = cols img"
    and rW: "\<forall>y < cols img. ww ! y = [Some 0, Some 1, Some 0, Some 0] \<and>
               iw ! y = index_row 4 (int y)"
    by blast
  have unf: "imresize exact junk img 1 antialiasing =
      seq (resize_rows (junk 0) (junk 1) (wh, ih, 1, 2) (int (rows img)) (to_fl img)) (\<lambda>out_1.
      seq (resize_rows (junk 2) (junk 3) (ww, iw, 1, 2) (int (cols img)) (swap_axes out_1))
        (\<lambda>out_2. Inr (swap_axes out_2)))"
    by (simp add: imresize_exact Let_def cH cW)
  have "\<exists>t. resize_rows (junk 0) (junk 1) (wh, ih, 1, 2) (int (rows (to_fl img))) (to_fl img) = Inr t \<and>
           channels t = channels (to_fl img) \<and> rows t = rows (to_fl img) \<and>
           cols t = cols (to_fl img) \<and>
           (\<forall>c < 3. \<forall>y < rows (to_fl img). \<forall>x < cols (to_fl img).
              entry t c y x = Some (entry img c y x))"
    by (rule resize_rows_identity) (use ch h lH rH in simp_all)
  then obtain out_1 where
    o1: "resize_rows (junk 0) (junk 1) (wh, ih, 1, 2) (int (rows img)) (to_fl img) = Inr out_1"
    and s1: "channels out_1 = channels img" "rows out_1 = rows img" "cols out_1 = cols img"
    and e1: "\<forall>c < 3. \<forall>y < rows img. \<forall>x < cols img. entry out_1 c y x = Some (entry img c y x)"
    by auto
  have "\<exists>t. resize_rows (junk 2) (junk 3) (ww, iw, 1, 2) (int (rows (swap_axes out_1)))
               (swap_axes out_1) = Inr t \<and>
           channels t = channels (swap_axes out_1) \<and> rows t = rows (swap_axes out_1) \<and>
           cols t = cols (swap_axes out_1) \<and>
           (\<forall>c < 3. \<forall>y < rows (swap_axes out_1). \<forall>x < cols (swap_axes out_1).
              entry t c y x = Some (entry img c x y))"
    by (rule resize_rows_identity) (use ch w lW rW e1 in \<open>simp_all add: s1\<close>)
  then obtain out_2 where
    o2: "resize_rows (junk 2) (junk 3) (ww, iw, 1, 2) (int (cols img)) (swap_axes out_1) = Inr out_2"
    and s2: "channels out_2 = channels img" "rows out_2 = cols img" "cols out_2 = rows img"
    and e2: "\<forall>c < 3. \<forall>y < cols img. \<forall>x < rows img. entry out_2 c y x = Some (entry img c x y)"
    by (auto simp: s1)
  have "imresize exact junk img 1 antialiasing = Inr (swap_axes out_2)"
    unfolding unf o1 seq_Inr o2 ..
  then show ?thesis using s2 e2 by simp
qed

lemma calc_one:
  "calculate_weights_indices exact 1 1 1 4 True =
     Inr ([[Some 0, Some 1, Some 0, Some 0]], [[0, 1, 2, 3]], 1, 2)"
  by (simp add: calc_defs upt_rec eval_nat_numeral)

lemmas resize_defs = resize_rows_def FloatTensor_def copy_rows_def broadcastable_def bidx_def
  py_bound_def slice_rows_def flip_rows_def filter_channel_def put_row_def Let_def





text \<open>
  The claim C5 as stated ranges over every image. With two channels the loop raises
  \<^verbatim>\<open>IndexError\<close> when it writes channel 2.
\<close>

theorem imresize_scale_one_raises_on_two_channels:
  "imresize exact nan_memory (test_image 2 1 1) 1 True = Inl IndexError"
  by (simp add: imresize_exact Let_def test_image_def calc_one resize_defs to_fl_def)

theorem imresize_scale_one_identity_witness:
  "3 \<le> channels (test_image 3 2 2) \<and> 0 < rows (test_image 3 2 2) \<and>
   0 < cols (test_image 3 2 2) \<and>
   (\<exists>t. imresize exact nan_memory (test_image 3 2 2) 1 True = Inr t \<and>
        channels t = 3 \<and> rows t = 2 \<and> cols t = 2 \<and>
        entry t 0 0 0 = Some 0 \<and> entry t 0 0 1 = Some (1 / 16) \<and>
        entry t 1 1 0 = Some (6 / 16) \<and> entry t 2 1 1 = Some (11 / 16))"
proof -
  have h1: "3 \<le> channels (test_image 3 2 2)" and h2: "0 < rows (test_image 3 2 2)"
    and h3: "0 < cols (test_image 3 2 2)"
    by (simp_all add: test_image_def)
  from imresize_scale_one_identity [OF h1 h2 h3, of nan_memory True]
  obtain t where t: "imresize exact nan_memory (test_image 3 2 2) 1 True = Inr t"
    "channels t = channels (test_image 3 2 2)" "rows t = rows (test_image 3 2 2)"
    "cols t = cols (test_image 3 2 2)"
    and e: "\<forall>c < 3. \<forall>y < rows (test_image 3 2 2). \<forall>x < cols (test_image 3 2 2).
          entry t c y x = Some (entry (test_image 3 2 2) c y x)"
    by blast
  have "entry t 0 0 0 = Some 0" "entry t 0 0 1 = Some (1 / 16)"
    "entry t 1 1 0 = Some (6 / 16)" "entry t 2 1 1 = Some (11 / 16)"
    using e by (simp_all add: test_image_def)
  then show ?thesis using t h1 h2 h3 by (auto simp: test_image_def)
qed

section \<open>Properties of the focal frequency loss\<close>

subsection \<open>Positions and entries of a tensor\<close>

lemma in_positions:
  "(n, p, c, h, w) \<in> set (positions t) \<longleftrightarrow> inside t n p c h w"
  by (auto simp: positions_def inside_def image_iff)

lemma set_positions:
  "set (positions t) = {(n, p, c, h, w). inside t n p c h w}"
  using in_positions [of _ _ _ _ _ t] by auto

lemma in_elements:
  "v \<in> set (elements t) \<longleftrightarrow> (\<exists>n p c h w. inside t n p c h w \<and> v = bin t n p c h w)"
proof
  assume "v \<in> set (elements t)"
  then obtain q where q: "q \<in> set (positions t)" "v = bin_at t q" by (auto simp: elements_def)
  obtain n p c h w where "q = (n, p, c, h, w)" by (cases q)
  then have "inside t n p c h w \<and> v = bin t n p c h w"
    using q in_positions [of n p c h w t] by (simp add: bin_at_def)
  then show "\<exists>n p c h w. inside t n p c h w \<and> v = bin t n p c h w" by blast
next
  assume "\<exists>n p c h w. inside t n p c h w \<and> v = bin t n p c h w"
  then obtain n p c h w where i: "inside t n p c h w" "v = bin t n p c h w" by blast
  then have "(n, p, c, h, w) \<in> set (positions t)" by (simp add: in_positions)
  then have "bin_at t (n, p, c, h, w) \<in> set (elements t)" unfolding elements_def by simp
  then show "v \<in> set (elements t)" using i by (simp add: bin_at_def)
qed

lemma elements_empty_iff:
  "elements t = [] \<longleftrightarrow> (dim_n t = 0 \<or> dim_p t = 0 \<or> dim_c t = 0 \<or> dim_h t = 0 \<or> dim_w t = 0)"
proof -
  have "elements t = [] \<longleftrightarrow> set (positions t) = {}" by (simp add: elements_def)
  also have "\<dots> \<longleftrightarrow> \<not> (\<exists>n p c h w. inside t n p c h w)"
    unfolding set_positions by auto
  also have "\<dots> \<longleftrightarrow> (dim_n t = 0 \<or> dim_p t = 0 \<or> dim_c t = 0 \<or> dim_h t = 0 \<or> dim_w t = 0)"
    by (auto simp: inside_def)
  finally show ?thesis .
qed

lemma map5_fields [simp]:
  "dim_n (map5 f t) = dim_n t" "dim_p (map5 f t) = dim_p t" "dim_c (map5 f t) = dim_c t"
  "dim_h (map5 f t) = dim_h t" "dim_w (map5 f t) = dim_w t"
  "bin (map5 f t) n p c h w = f (bin t n p c h w)"
  by (simp_all add: map5_def)

lemma elements_map5: "elements (map5 f t) = map f (elements t)"
  by (simp add: elements_def positions_def bin_at_def comp_def split_def)

lemma check_range_ok:
  assumes "elements m \<noteq> []" and "\<forall>v \<in> set (elements m). 0 \<le> v \<and> v \<le> 1"
  shows "check_range m = Inr m"
proof -
  have "Min (set (elements m)) \<in> set (elements m)" using assms(1) by (intro Min_in) simp_all
  moreover have "Max (set (elements m)) \<in> set (elements m)"
    using assms(1) by (intro Max_in) simp_all
  ultimately
  have "0 \<le> Min (set (elements m))" "Max (set (elements m)) \<le> 1"
    using assms(2) by blast+
  then show ?thesis using assms(1) by (simp add: check_range_def)
qed

lemma check_range_fails:
  assumes "v \<in> set (elements m)" and "v < 0 \<or> 1 < v"
  shows "check_range m =
           Inl (WeightRangeAssertion (Min (set (elements m))) (Max (set (elements m))))"
proof -
  have ne: "elements m \<noteq> []" using assms(1) by auto
  have "Min (set (elements m)) \<le> v" "v \<le> Max (set (elements m))"
    using assms(1) by simp_all
  then have "\<not> (0 \<le> Min (set (elements m)) \<and> Max (set (elements m)) \<le> 1)"
    using assms(2) by linarith
  then show ?thesis using ne by (simp add: check_range_def)
qed

lemma check_range_not_assertion:
  assumes "\<forall>v \<in> set (elements m). 0 \<le> v \<and> v \<le> 1"
  shows "check_range m \<noteq> Inl (WeightRangeAssertion lo hi)"
proof (cases "elements m = []")
  case True
  then show ?thesis by (simp add: check_range_def)
next
  case False
  then show ?thesis using check_range_ok [OF False assms] by simp
qed

lemma zip5_cases:
  "zip5 f s t = Inl TensorError \<or> (\<exists>r. zip5 f s t = Inr r)"
  by (simp add: zip5_def)

lemma zip5_same_shape:
  assumes "dim_n s = dim_n t" "dim_p s = dim_p t" "dim_c s = dim_c t" "dim_h s = dim_h t"
    "dim_w s = dim_w t"
  shows "\<exists>r. zip5 f s t = Inr r \<and> dim_n r = dim_n t \<and> dim_p r = dim_p t \<and> dim_c r = dim_c t \<and>
           dim_h r = dim_h t \<and> dim_w r = dim_w t \<and>
           (\<forall>n p c h w. inside t n p c h w \<longrightarrow>
              bin r n p c h w = f (bin s n p c h w) (bin t n p c h w))"
  using assms by (auto simp: zip5_def bc_ok_def bc_dim_def bidx_def inside_def)

subsection \<open>The errors that the loss can raise\<close>

lemma seq_error:
  assumes "seq m f = Inl e" and "\<And>e. m = Inl e \<Longrightarrow> Q e" and "\<And>x e. f x = Inl e \<Longrightarrow> Q e"
  shows "Q e"
  using assms by (cases m) (auto simp: seq_def)

lemma zip5_error: "zip5 f s t = Inl e \<Longrightarrow> e = TensorError"
  by (simp add: zip5_def split: if_splits)

lemma normalise_error: "normalise b t = Inl e \<Longrightarrow> e = TensorError"
  by (simp add: normalise_def split: if_splits)

lemma online_matrix_error:
  assumes "online_matrix cfg r t = Inl e" shows "e = TensorError"
proof (rule seq_error [OF assms [unfolded online_matrix_def]])
  show "\<And>e. freq_diff r t = Inl e \<Longrightarrow> e = TensorError"
    by (simp add: freq_diff_def zip5_error)
next
  fix d e
  assume "(let matrix_tmp = map5 (distance_power (alpha cfg)) d;
               matrix_tmp = if log_matrix cfg then map5 flog1p matrix_tmp else matrix_tmp
           in seq (normalise (batch_matrix cfg) matrix_tmp) (\<lambda>m. Inr (map5 replace_nan_clamp m)))
          = Inl e"
  then have "seq (normalise (batch_matrix cfg)
                (if log_matrix cfg then map5 flog1p (map5 (distance_power (alpha cfg)) d)
                 else map5 (distance_power (alpha cfg)) d))
              (\<lambda>m. Inr (map5 replace_nan_clamp m)) = Inl e"
    by (simp add: Let_def)
  then show "e = TensorError"
    by (rule seq_error) (auto dest: normalise_error)
qed

lemma check_range_error:
  "check_range m = Inl e \<Longrightarrow> e = TensorError \<or> (\<exists>lo hi. e = WeightRangeAssertion lo hi)"
  by (auto simp: check_range_def split: if_splits)

lemma loss_formulation_error:
  assumes "loss_formulation cfg r t matrix = Inl e"
  shows "e = TensorError \<or> (\<exists>lo hi. e = WeightRangeAssertion lo hi)"
proof (rule seq_error [OF assms [unfolded loss_formulation_def]])
  fix e assume "(case matrix of None \<Rightarrow> online_matrix cfg r t | Some m \<Rightarrow> Inr m) = Inl e"
  then show "e = TensorError \<or> (\<exists>lo hi. e = WeightRangeAssertion lo hi)"
    by (cases matrix) (auto dest: online_matrix_error)
next
  fix wm e
  assume "seq (check_range wm) (\<lambda>weight_matrix. seq (freq_diff r t) (\<lambda>d.
            seq (zip5 (*) weight_matrix (map5 squared_norm d)) (\<lambda>loss. Inr (mean5 loss)))) = Inl e"
  then show "e = TensorError \<or> (\<exists>lo hi. e = WeightRangeAssertion lo hi)"
  proof (rule seq_error)
    show "\<And>e. check_range wm = Inl e \<Longrightarrow> e = TensorError \<or> (\<exists>lo hi. e = WeightRangeAssertion lo hi)"
      by (rule check_range_error)
  next
    fix wm' e
    assume "seq (freq_diff r t) (\<lambda>d. seq (zip5 (*) wm' (map5 squared_norm d))
              (\<lambda>loss. Inr (mean5 loss))) = Inl e"
    then have "e = TensorError"
    proof (rule seq_error)
      show "\<And>e. freq_diff r t = Inl e \<Longrightarrow> e = TensorError"
        by (simp add: freq_diff_def zip5_error)
    next
      fix d e
      assume "seq (zip5 (*) wm' (map5 squared_norm d)) (\<lambda>loss. Inr (mean5 loss)) = Inl e"
      then show "e = TensorError" by (rule seq_error) (auto dest: zip5_error)
    qed
    then show "e = TensorError \<or> (\<exists>lo hi. e = WeightRangeAssertion lo hi)" by simp
  qed
qed

lemma tensor2freq_assertion:
  "tensor2freq cfg x = Inl PatchFactorAssertion \<longleftrightarrow>
     patch_factor cfg \<noteq> 0 \<and>
     \<not> (patch_factor cfg dvd int (size_h x) \<and> patch_factor cfg dvd int (size_w x))"
  by (auto simp: tensor2freq_def Let_def dvd_eq_mod_eq_0)

lemma tensor2freq_zero_division:
  "tensor2freq cfg x = Inl ZeroDivisionError \<longleftrightarrow> patch_factor cfg = 0"
  by (auto simp: tensor2freq_def Let_def)

lemma forward_error_after_freq:
  assumes "forward cfg pred target matrix = Inl e"
  shows "tensor2freq cfg pred = Inl e \<or> tensor2freq cfg target = Inl e \<or>
         e = TensorError \<or> (\<exists>lo hi. e = WeightRangeAssertion lo hi)"
proof (cases "tensor2freq cfg pred")
  case (Inl e')
  then show ?thesis using assms by (simp add: forward_def)
next
  case p: (Inr pf)
  show ?thesis
  proof (cases "tensor2freq cfg target")
    case (Inl e')
    then show ?thesis using assms p by (simp add: forward_def)
  next
    case t: (Inr tf)
    have "e = TensorError \<or> (\<exists>lo hi. e = WeightRangeAssertion lo hi)"
    proof (cases "ave_spectrum cfg \<and> (dim_n pf = 0 \<or> dim_n tf = 0)")
      case True
      then show ?thesis using assms p t by (auto simp: forward_def split: if_splits)
    next
      case False
      define l where "l = (if ave_spectrum cfg
              then loss_formulation cfg (batch_mean pf) (batch_mean tf) matrix
              else loss_formulation cfg pf tf matrix)"
      have "seq l (\<lambda>l. Inr (fmul l (Some (loss_weight cfg)))) = Inl e"
        using assms p t False by (simp add: forward_def l_def)
      then have "l = Inl e" by (cases l) simp_all
      then show ?thesis
        using loss_formulation_error [of cfg _ _ matrix e]
        by (auto simp: l_def split: if_splits)
    qed
    then show ?thesis by blast
  qed
qed

subsection \<open>The assertion on the patch factor\<close>

text \<open>
  Claim C7. For a prediction and a target of the same height and width, \<^verbatim>\<open>forward\<close>
  fails with the assertion on the patch factor if and only if the patch factor is not 0
  and does not divide both the height and the width, and it fails with the
  \<^verbatim>\<open>ZeroDivisionError\<close> of the remainder if and only if the patch factor is 0. Both
  failures are those of \<^verbatim>\<open>tensor2freq(pred)\<close>, the first statement of \<^verbatim>\<open>forward\<close>,
  before any spectrum or loss is computed.
\<close>

theorem forward_fails_iff_patch_factor_does_not_divide:
  assumes "size_h target = size_h pred" and "size_w target = size_w pred"
  shows "(forward cfg pred target matrix = Inl PatchFactorAssertion \<longleftrightarrow>
            patch_factor cfg \<noteq> 0 \<and>
            \<not> (patch_factor cfg dvd int (size_h pred) \<and> patch_factor cfg dvd int (size_w pred))) \<and>
         (forward cfg pred target matrix = Inl ZeroDivisionError \<longleftrightarrow> patch_factor cfg = 0) \<and>
         (patch_factor cfg \<noteq> 0 \<and>
          \<not> (patch_factor cfg dvd int (size_h pred) \<and> patch_factor cfg dvd int (size_w pred)) \<longrightarrow>
            tensor2freq cfg pred = Inl PatchFactorAssertion) \<and>
         (patch_factor cfg = 0 \<longrightarrow> tensor2freq cfg pred = Inl ZeroDivisionError)"
proof -
  let ?d = "patch_factor cfg \<noteq> 0 \<and>
            \<not> (patch_factor cfg dvd int (size_h pred) \<and> patch_factor cfg dvd int (size_w pred))"
  have p: "tensor2freq cfg pred = Inl PatchFactorAssertion \<longleftrightarrow> ?d"
    by (rule tensor2freq_assertion)
  have t: "tensor2freq cfg target = Inl PatchFactorAssertion \<longleftrightarrow> ?d"
    using tensor2freq_assertion [of cfg target] assms by simp
  have pz: "tensor2freq cfg pred = Inl ZeroDivisionError \<longleftrightarrow> patch_factor cfg = 0"
    and tz: "tensor2freq cfg target = Inl ZeroDivisionError \<longleftrightarrow> patch_factor cfg = 0"
    by (rule tensor2freq_zero_division)+
  have up: "forward cfg pred target matrix = Inl e" if "tensor2freq cfg pred = Inl e" for e
    using that by (simp add: forward_def)
  have a: "forward cfg pred target matrix = Inl PatchFactorAssertion \<longleftrightarrow> ?d"
  proof
    assume "forward cfg pred target matrix = Inl PatchFactorAssertion"
    from forward_error_after_freq [OF this] show ?d using p t by auto
  next
    assume ?d
    then show "forward cfg pred target matrix = Inl PatchFactorAssertion" using p up by blast
  qed
  have z: "forward cfg pred target matrix = Inl ZeroDivisionError \<longleftrightarrow> patch_factor cfg = 0"
  proof
    assume "forward cfg pred target matrix = Inl ZeroDivisionError"
    from forward_error_after_freq [OF this] show "patch_factor cfg = 0" using pz tz by auto
  next
    assume "patch_factor cfg = 0"
    then show "forward cfg pred target matrix = Inl ZeroDivisionError" using pz up by blast
  qed
  show ?thesis using a z p pz by blast
qed

theorem forward_fails_iff_patch_factor_does_not_divide_witness:
  "size_h (test_batch 1 3 7 7) = size_h (test_batch 1 3 7 7) \<and>
   size_w (test_batch 1 3 7 7) = size_w (test_batch 1 3 7 7) \<and>
   patch_factor (default_config\<lparr>patch_factor := 2\<rparr>) = 2 \<and>
   \<not> (2 dvd (7::int)) \<and>
   forward (default_config\<lparr>patch_factor := 2\<rparr>) (test_batch 1 3 7 7) (test_batch 1 3 7 7) None
     = Inl PatchFactorAssertion \<and>
   tensor2freq (default_config\<lparr>patch_factor := 2\<rparr>) (test_batch 1 3 7 7)
     = Inl PatchFactorAssertion"
proof -
  have n: "\<not> (2 dvd (7::int))" by simp
  show ?thesis
    using forward_fails_iff_patch_factor_does_not_divide
      [OF refl refl, of "default_config\<lparr>patch_factor := 2\<rparr>" "test_batch 1 3 7 7" None] n
    by (simp add: default_config_def test_batch_def)
qed

subsection \<open>The assertion on the range of the weights\<close>

lemma freq_diff_same_shape:
  assumes "dim_n r = dim_n t" "dim_p r = dim_p t" "dim_c r = dim_c t" "dim_h r = dim_h t"
    "dim_w r = dim_w t"
  shows "\<exists>d. freq_diff r t = Inr d \<and> dim_n d = dim_n t \<and> dim_p d = dim_p t \<and>
           dim_c d = dim_c t \<and> dim_h d = dim_h t \<and> dim_w d = dim_w t \<and>
           (\<forall>n p c h w. inside t n p c h w \<longrightarrow>
              bin d n p c h w = (fst (bin r n p c h w) - fst (bin t n p c h w),
                                 snd (bin r n p c h w) - snd (bin t n p c h w)))"
  unfolding freq_diff_def by (rule zip5_same_shape [OF assms])

lemma loss_formulation_given_matrix:
  "loss_formulation cfg r t (Some m) =
     seq (check_range m) (\<lambda>weight_matrix.
     seq (freq_diff r t) (\<lambda>d.
     seq (zip5 (*) weight_matrix (map5 squared_norm d)) (\<lambda>loss.
     Inr (mean5 loss))))"
  by (simp add: loss_formulation_def)

text \<open>
  Claim C8. When the matrix that is given contains a value outside \<open>[0, 1]\<close>,
  \<^verbatim>\<open>loss_formulation\<close> fails with the assertion on the range of the weights, which
  carries the minimum and the maximum of the matrix. When all its values lie in
  \<open>[0, 1]\<close> that assertion does not fail, and \<^verbatim>\<open>loss_formulation\<close> returns a loss if
  moreover the matrix has an entry and the shape of the two spectra.
\<close>

theorem loss_formulation_checks_weight_range:
  "((\<exists>v \<in> set (elements m). v < 0 \<or> 1 < v) \<longrightarrow>
      loss_formulation cfg recon_freq real_freq (Some m) =
        Inl (WeightRangeAssertion (Min (set (elements m))) (Max (set (elements m))))) \<and>
   ((\<forall>v \<in> set (elements m). 0 \<le> v \<and> v \<le> 1) \<longrightarrow>
      (\<forall>lo hi. loss_formulation cfg recon_freq real_freq (Some m)
                 \<noteq> Inl (WeightRangeAssertion lo hi)) \<and>
      (elements m \<noteq> [] \<and>
       dim_n recon_freq = dim_n m \<and> dim_p recon_freq = dim_p m \<and> dim_c recon_freq = dim_c m \<and>
       dim_h recon_freq = dim_h m \<and> dim_w recon_freq = dim_w m \<and>
       dim_n real_freq = dim_n m \<and> dim_p real_freq = dim_p m \<and> dim_c real_freq = dim_c m \<and>
       dim_h real_freq = dim_h m \<and> dim_w real_freq = dim_w m \<longrightarrow>
       (\<exists>l. loss_formulation cfg recon_freq real_freq (Some m) = Inr (Some l))))"
proof (intro conjI impI allI)
  assume "\<exists>v \<in> set (elements m). v < 0 \<or> 1 < v"
  then obtain v where "v \<in> set (elements m)" "v < 0 \<or> 1 < v" by blast
  then show "loss_formulation cfg recon_freq real_freq (Some m) =
        Inl (WeightRangeAssertion (Min (set (elements m))) (Max (set (elements m))))"
    by (simp add: loss_formulation_given_matrix check_range_fails)
next
  fix lo hi
  assume a: "\<forall>v \<in> set (elements m). 0 \<le> v \<and> v \<le> 1"
  show "loss_formulation cfg recon_freq real_freq (Some m) \<noteq> Inl (WeightRangeAssertion lo hi)"
  proof
    assume f: "loss_formulation cfg recon_freq real_freq (Some m) = Inl (WeightRangeAssertion lo hi)"
    show False
    proof (cases "elements m = []")
      case True
      then show False using f by (simp add: loss_formulation_given_matrix check_range_def)
    next
      case False
      have c: "check_range m = Inr m" by (rule check_range_ok [OF False a])
      have "seq (freq_diff recon_freq real_freq) (\<lambda>d.
              seq (zip5 (*) m (map5 squared_norm d)) (\<lambda>loss. Inr (mean5 loss)))
            = Inl (WeightRangeAssertion lo hi)"
        using f by (simp add: loss_formulation_given_matrix c)
      then have "WeightRangeAssertion lo hi = TensorError"
      proof (rule seq_error)
        show "\<And>e. freq_diff recon_freq real_freq = Inl e \<Longrightarrow> e = TensorError"
          by (simp add: freq_diff_def zip5_error)
      next
        fix d e
        assume "seq (zip5 (*) m (map5 squared_norm d)) (\<lambda>loss. Inr (mean5 loss)) = Inl e"
        then show "e = TensorError" by (rule seq_error) (auto dest: zip5_error)
      qed
      then show False by simp
    qed
  qed
next
  assume a: "\<forall>v \<in> set (elements m). 0 \<le> v \<and> v \<le> 1"
    and b: "elements m \<noteq> [] \<and>
       dim_n recon_freq = dim_n m \<and> dim_p recon_freq = dim_p m \<and> dim_c recon_freq = dim_c m \<and>
       dim_h recon_freq = dim_h m \<and> dim_w recon_freq = dim_w m \<and>
       dim_n real_freq = dim_n m \<and> dim_p real_freq = dim_p m \<and> dim_c real_freq = dim_c m \<and>
       dim_h real_freq = dim_h m \<and> dim_w real_freq = dim_w m"
  have c: "check_range m = Inr m" using check_range_ok a b by blast
  obtain d where d: "freq_diff recon_freq real_freq = Inr d"
    "dim_n d = dim_n m" "dim_p d = dim_p m" "dim_c d = dim_c m" "dim_h d = dim_h m"
    "dim_w d = dim_w m"
    using freq_diff_same_shape [of recon_freq real_freq] b by auto
  obtain l where l: "zip5 (*) m (map5 squared_norm d) = Inr l" "dim_n l = dim_n m"
    "dim_p l = dim_p m" "dim_c l = dim_c m" "dim_h l = dim_h m" "dim_w l = dim_w m"
    using zip5_same_shape [of m "map5 squared_norm d" "(*)"] d by auto
  have "elements l \<noteq> []" using b l by (simp add: elements_empty_iff)
  then have "\<exists>v. mean5 l = Some v" by (simp add: mean5_def fdiv_def)
  then show "\<exists>l. loss_formulation cfg recon_freq real_freq (Some m) = Inr (Some l)"
    by (auto simp: loss_formulation_given_matrix c d l)
qed

lemma elements_single_bin [simp]: "elements (single_bin v) = [v]"
  by (simp add: elements_def positions_def single_bin_def bin_at_def)

lemma single_bin_dims [simp]:
  "dim_n (single_bin v) = 1" "dim_p (single_bin v) = 1" "dim_c (single_bin v) = 1"
  "dim_h (single_bin v) = 1" "dim_w (single_bin v) = 1"
  by (simp_all add: single_bin_def)

theorem loss_formulation_checks_weight_range_witness:
  "(3 / 2 :: real) \<in> set (elements (single_bin (3 / 2))) \<and> \<not> ((3 / 2 :: real) \<le> 1) \<and>
   loss_formulation default_config (single_bin (1, 0)) (single_bin (0, 0))
     (Some (single_bin (3 / 2))) = Inl (WeightRangeAssertion (3 / 2) (3 / 2)) \<and>
   (0 :: real) \<le> 1 / 2 \<and> (1 / 2 :: real) \<le> 1 \<and>
   (\<exists>l. loss_formulation default_config (single_bin (1, 0)) (single_bin (0, 0))
     (Some (single_bin (1 / 2))) = Inr (Some l))"
proof -
  have p1: "\<exists>v \<in> set (elements (single_bin (3 / 2 :: real))). v < 0 \<or> 1 < v"
    by (rule bexI [where x = "3 / 2"]) simp_all
  have a: "loss_formulation default_config (single_bin (1, 0)) (single_bin (0, 0))
     (Some (single_bin (3 / 2))) = Inl (WeightRangeAssertion (3 / 2) (3 / 2))"
    using loss_formulation_checks_weight_range
      [of "single_bin (3 / 2)" default_config "single_bin (1, 0)" "single_bin (0, 0)",
        THEN conjunct1, THEN mp, OF p1]
    by simp
  have p2: "\<forall>v \<in> set (elements (single_bin (1 / 2 :: real))). 0 \<le> v \<and> v \<le> 1" by simp
  have p3: "elements (single_bin (1 / 2 :: real)) \<noteq> [] \<and>
       dim_n (single_bin (1 :: real, 0 :: real)) = dim_n (single_bin (1 / 2 :: real)) \<and>
       dim_p (single_bin (1 :: real, 0 :: real)) = dim_p (single_bin (1 / 2 :: real)) \<and>
       dim_c (single_bin (1 :: real, 0 :: real)) = dim_c (single_bin (1 / 2 :: real)) \<and>
       dim_h (single_bin (1 :: real, 0 :: real)) = dim_h (single_bin (1 / 2 :: real)) \<and>
       dim_w (single_bin (1 :: real, 0 :: real)) = dim_w (single_bin (1 / 2 :: real)) \<and>
       dim_n (single_bin (0 :: real, 0 :: real)) = dim_n (single_bin (1 / 2 :: real)) \<and>
       dim_p (single_bin (0 :: real, 0 :: real)) = dim_p (single_bin (1 / 2 :: real)) \<and>
       dim_c (single_bin (0 :: real, 0 :: real)) = dim_c (single_bin (1 / 2 :: real)) \<and>
       dim_h (single_bin (0 :: real, 0 :: real)) = dim_h (single_bin (1 / 2 :: real)) \<and>
       dim_w (single_bin (0 :: real, 0 :: real)) = dim_w (single_bin (1 / 2 :: real))"
    by simp
  have b: "\<exists>l. loss_formulation default_config (single_bin (1, 0)) (single_bin (0, 0))
     (Some (single_bin (1 / 2))) = Inr (Some l)"
    using loss_formulation_checks_weight_range
      [of "single_bin (1 / 2)" default_config "single_bin (1, 0)" "single_bin (0, 0)",
        THEN conjunct2, THEN mp, OF p2, THEN conjunct2, THEN mp, OF p3] .
  show ?thesis using a b by simp
qed

subsection \<open>The loss of a tensor against itself\<close>

lemma replace_nan_clamp_range: "0 \<le> replace_nan_clamp v \<and> replace_nan_clamp v \<le> 1"
  by (cases v) (simp_all add: replace_nan_clamp_def)

lemma normalise_ok:
  assumes "0 < dim_n t" "0 < dim_p t" "0 < dim_c t" "0 < dim_h t" "0 < dim_w t"
  shows "\<exists>r. normalise b t = Inr r \<and> dim_n r = dim_n t \<and> dim_p r = dim_p t \<and>
           dim_c r = dim_c t \<and> dim_h r = dim_h t \<and> dim_w r = dim_w t"
proof -
  have "elements t \<noteq> []" using assms by (simp add: elements_empty_iff)
  then show ?thesis using assms by (simp add: normalise_def)
qed

lemma online_matrix_ok:
  assumes same: "dim_n r = dim_n t" "dim_p r = dim_p t" "dim_c r = dim_c t" "dim_h r = dim_h t"
      "dim_w r = dim_w t"
    and pos: "0 < dim_n t" "0 < dim_p t" "0 < dim_c t" "0 < dim_h t" "0 < dim_w t"
  shows "\<exists>m. online_matrix cfg r t = Inr m \<and> dim_n m = dim_n t \<and> dim_p m = dim_p t \<and>
           dim_c m = dim_c t \<and> dim_h m = dim_h t \<and> dim_w m = dim_w t \<and>
           (\<forall>v \<in> set (elements m). 0 \<le> v \<and> v \<le> 1)"
proof -
  obtain d where d: "freq_diff r t = Inr d"
    "dim_n d = dim_n t" "dim_p d = dim_p t" "dim_c d = dim_c t" "dim_h d = dim_h t"
    "dim_w d = dim_w t"
    using freq_diff_same_shape [OF same] by blast
  define mt where "mt = (if log_matrix cfg then map5 flog1p (map5 (distance_power (alpha cfg)) d)
                 else map5 (distance_power (alpha cfg)) d)"
  have mts: "dim_n mt = dim_n t" "dim_p mt = dim_p t" "dim_c mt = dim_c t" "dim_h mt = dim_h t"
    "dim_w mt = dim_w t"
    by (simp_all add: mt_def d)
  obtain n where n: "normalise (batch_matrix cfg) mt = Inr n"
    "dim_n n = dim_n t" "dim_p n = dim_p t" "dim_c n = dim_c t" "dim_h n = dim_h t"
    "dim_w n = dim_w t"
    using normalise_ok [of mt "batch_matrix cfg"] pos mts by auto
  have "online_matrix cfg r t = Inr (map5 replace_nan_clamp n)"
    by (simp add: online_matrix_def d Let_def mt_def [symmetric] n)
  moreover have "\<forall>v \<in> set (elements (map5 replace_nan_clamp n)). 0 \<le> v \<and> v \<le> 1"
    using replace_nan_clamp_range by (auto simp: elements_map5)
  ultimately show ?thesis using n by simp
qed

lemma sum_list_zeros:
  fixes xs :: "real list"
  shows "\<forall>x \<in> set xs. x = 0 \<Longrightarrow> sum_list xs = 0"
  by (induction xs) simp_all

lemma loss_self_zero:
  assumes pos: "0 < dim_n t" "0 < dim_p t" "0 < dim_c t" "0 < dim_h t" "0 < dim_w t"
  shows "loss_formulation cfg t t None = Inr (Some 0)"
proof -
  obtain m where m: "online_matrix cfg t t = Inr m" "dim_n m = dim_n t" "dim_p m = dim_p t"
    "dim_c m = dim_c t" "dim_h m = dim_h t" "dim_w m = dim_w t"
    and range: "\<forall>v \<in> set (elements m). 0 \<le> v \<and> v \<le> 1"
    using online_matrix_ok [OF refl refl refl refl refl pos, of cfg] by blast
  have ne: "elements m \<noteq> []" using pos m by (simp add: elements_empty_iff)
  have c: "check_range m = Inr m" by (rule check_range_ok [OF ne range])
  obtain d where d: "freq_diff t t = Inr d"
    "dim_n d = dim_n t" "dim_p d = dim_p t" "dim_c d = dim_c t" "dim_h d = dim_h t"
    "dim_w d = dim_w t"
    and dz: "\<forall>n p c h w. inside t n p c h w \<longrightarrow>
              bin d n p c h w = (fst (bin t n p c h w) - fst (bin t n p c h w),
                                 snd (bin t n p c h w) - snd (bin t n p c h w))"
    using freq_diff_same_shape [OF refl refl refl refl refl, of t] by blast
  obtain l where l: "zip5 (*) m (map5 squared_norm d) = Inr l" "dim_n l = dim_n t"
    "dim_p l = dim_p t" "dim_c l = dim_c t" "dim_h l = dim_h t" "dim_w l = dim_w t"
    and lz: "\<forall>n p c h w. inside (map5 squared_norm d) n p c h w \<longrightarrow>
              bin l n p c h w = bin m n p c h w * bin (map5 squared_norm d) n p c h w"
    using zip5_same_shape [of m "map5 squared_norm d" "(*)"] m d by auto
  have zero: "\<forall>v \<in> set (elements l). v = 0"
  proof
    fix v assume "v \<in> set (elements l)"
    then obtain n p c h w where i: "inside l n p c h w" and v: "v = bin l n p c h w"
      unfolding in_elements by blast
    have it: "inside t n p c h w" "inside (map5 squared_norm d) n p c h w"
      using i by (simp_all add: inside_def l d)
    have "bin d n p c h w = (0, 0)" using dz it(1) by simp
    then have "bin (map5 squared_norm d) n p c h w = 0" by (simp add: squared_norm_def)
    then show "v = 0" using lz it(2) v by simp
  qed
  have lne: "elements l \<noteq> []" using pos l by (simp add: elements_empty_iff)
  have "mean5 l = Some 0"
    using lne by (simp add: mean5_def fdiv_def sum_list_zeros [OF zero])
  then show ?thesis by (simp add: loss_formulation_def m c d l)
qed

lemma emax_zeros:
  assumes "vs \<noteq> []" and "\<forall>v \<in> set vs. v = Fin 0"
  shows "emax vs = Fin 0"
proof -
  have "set vs = {Fin 0}" using assms by (cases vs) auto
  then show ?thesis by (simp add: emax_def)
qed

lemma zero_distance_entry:
  assumes "0 < a"
  shows "distance_power a (0, 0) = Fin 0" "flog1p (distance_power a (0, 0)) = Fin 0"
  using assms by (simp_all add: distance_power_def fpow_def flog1p_def)

lemma batch_mean_fields [simp]:
  "dim_n (batch_mean t) = 1" "dim_p (batch_mean t) = dim_p t" "dim_c (batch_mean t) = dim_c t"
  "dim_h (batch_mean t) = dim_h t" "dim_w (batch_mean t) = dim_w t"
  by (simp_all add: batch_mean_def)

lemma zero_distance_weights:
  assumes pos: "0 < dim_n t" "0 < dim_p t" "0 < dim_c t" "0 < dim_h t" "0 < dim_w t"
    and a: "0 < alpha cfg"
  shows "\<exists>d nm. freq_diff t t = Inr d \<and>
           normalise (batch_matrix cfg)
             (if log_matrix cfg then map5 flog1p (map5 (distance_power (alpha cfg)) d)
              else map5 (distance_power (alpha cfg)) d) = Inr nm \<and>
           (\<forall>n p c h w. inside t n p c h w \<longrightarrow>
              bin nm n p c h w = NaN \<and> replace_nan_clamp (bin nm n p c h w) = 0) \<and>
           online_matrix cfg t t = Inr (map5 replace_nan_clamp nm)"
proof -
  obtain d where d: "freq_diff t t = Inr d"
    "dim_n d = dim_n t" "dim_p d = dim_p t" "dim_c d = dim_c t" "dim_h d = dim_h t"
    "dim_w d = dim_w t"
    and dz: "\<forall>n p c h w. inside t n p c h w \<longrightarrow>
              bin d n p c h w = (fst (bin t n p c h w) - fst (bin t n p c h w),
                                 snd (bin t n p c h w) - snd (bin t n p c h w))"
    using freq_diff_same_shape [OF refl refl refl refl refl, of t] by blast
  define mt where "mt = (if log_matrix cfg then map5 flog1p (map5 (distance_power (alpha cfg)) d)
                 else map5 (distance_power (alpha cfg)) d)"
  have mts: "dim_n mt = dim_n t" "dim_p mt = dim_p t" "dim_c mt = dim_c t" "dim_h mt = dim_h t"
    "dim_w mt = dim_w t"
    by (simp_all add: mt_def d)
  have mz: "bin mt n p c h w = Fin 0" if "inside t n p c h w" for n p c h w
  proof -
    have "bin d n p c h w = (0, 0)" using dz that by simp
    then show ?thesis using zero_distance_entry [OF a] by (simp add: mt_def)
  qed
  have ne: "elements mt \<noteq> []" using pos mts by (simp add: elements_empty_iff)
  have ez: "\<forall>v \<in> set (elements mt). v = Fin 0"
  proof
    fix v assume "v \<in> set (elements mt)"
    then obtain n p c h w where "inside mt n p c h w" "v = bin mt n p c h w"
      unfolding in_elements by blast
    then show "v = Fin 0" using mz [of n p c h w] by (simp add: inside_def mts)
  qed
  have rows: "emax (concat (map (\<lambda>k. map (\<lambda>l. bin mt n p c k l) [0..<dim_w mt]) [0..<dim_h mt]))
                = Fin 0"
    if "inside t n p c h w" for n p c h w
  proof (rule emax_zeros)
    show "concat (map (\<lambda>k. map (\<lambda>l. bin mt n p c k l) [0..<dim_w mt]) [0..<dim_h mt]) \<noteq> []"
      using pos mts by (simp add: upt_conv_Cons)
  next
    show "\<forall>v \<in> set (concat (map (\<lambda>k. map (\<lambda>l. bin mt n p c k l) [0..<dim_w mt])
                               [0..<dim_h mt])). v = Fin 0"
    proof
      fix v
      assume "v \<in> set (concat (map (\<lambda>k. map (\<lambda>l. bin mt n p c k l) [0..<dim_w mt])
                                  [0..<dim_h mt]))"
      then obtain k l where "k < dim_h mt" "l < dim_w mt" "v = bin mt n p c k l" by auto
      then show "v = Fin 0" using mz [of n p c k l] that by (simp add: inside_def mts)
    qed
  qed
  obtain nm where nm: "normalise (batch_matrix cfg) mt = Inr nm"
    and nz: "\<forall>n p c h w. inside t n p c h w \<longrightarrow> bin nm n p c h w = NaN"
  proof (cases "batch_matrix cfg")
    case True
    have "normalise (batch_matrix cfg) mt = Inr (map5 (\<lambda>v. ediv v (emax (elements mt))) mt)"
      using True ne by (simp add: normalise_def)
    moreover have "\<forall>n p c h w. inside t n p c h w \<longrightarrow>
        bin (map5 (\<lambda>v. ediv v (emax (elements mt))) mt) n p c h w = NaN"
      using mz emax_zeros [OF ne ez] by (simp add: ediv_def)
    ultimately show ?thesis using that by blast
  next
    case False
    let ?r = "mt\<lparr>bin := \<lambda>n p c h w.
                ediv (bin mt n p c h w)
                  (emax (concat (map (\<lambda>k. map (\<lambda>l. bin mt n p c k l) [0..<dim_w mt])
                                   [0..<dim_h mt])))\<rparr>"
    have "normalise (batch_matrix cfg) mt = Inr ?r"
      using False pos mts by (simp add: normalise_def)
    moreover have "\<forall>n p c h w. inside t n p c h w \<longrightarrow> bin ?r n p c h w = NaN"
      using mz rows by (simp add: ediv_def)
    ultimately show ?thesis using that by blast
  qed
  have "online_matrix cfg t t = Inr (map5 replace_nan_clamp nm)"
    by (simp add: online_matrix_def d Let_def mt_def [symmetric] nm)
  moreover have "\<forall>n p c h w. inside t n p c h w \<longrightarrow>
              bin nm n p c h w = NaN \<and> replace_nan_clamp (bin nm n p c h w) = 0"
    using nz by (simp add: replace_nan_clamp_def)
  ultimately show ?thesis using d(1) nm unfolding mt_def by blast
qed

lemma tensor2freq_ok:
  assumes "0 < patch_factor cfg" "patch_factor cfg dvd int (size_h x)"
    "patch_factor cfg dvd int (size_w x)" "0 < size_h x" "0 < size_w x"
  shows "\<exists>f. tensor2freq cfg x = Inr f \<and> dim_n f = size_n x \<and> 0 < dim_p f \<and>
           dim_c f = size_c x \<and> 0 < dim_h f \<and> 0 < dim_w f"
proof -
  have m: "int (size_h x) mod patch_factor cfg = 0" "int (size_w x) mod patch_factor cfg = 0"
    using assms(2,3) by (simp_all add: dvd_eq_mod_eq_0)
  have "patch_factor cfg \<le> int (size_h x)" "patch_factor cfg \<le> int (size_w x)"
    using assms by (auto intro: zdvd_imp_le)
  then have q: "0 < int (size_h x) div patch_factor cfg" "0 < int (size_w x) div patch_factor cfg"
    using assms(1) by (simp_all add: pos_imp_zdiv_pos_iff)
  show ?thesis using assms(1) m q by (simp add: tensor2freq_def Let_def)
qed

text \<open>
  Claim C6. For a positive patch factor that divides the height and the width of a tensor
  \<open>x\<close> with at least one sample, one channel, one row and one column,
  \<^verbatim>\<open>forward(x, x)\<close> without a weight matrix returns 0. With a positive \<^verbatim>\<open>alpha\<close> every
  entry of the weight matrix is NaN after the division by the maximum (\<open>0 / 0\<close>), and is
  replaced by 0 in the weight matrix that \<^verbatim>\<open>loss_formulation\<close> uses.
\<close>

theorem forward_of_equal_tensors_is_zero:
  assumes "0 < patch_factor cfg"
    and "patch_factor cfg dvd int (size_h x)" and "patch_factor cfg dvd int (size_w x)"
    and "0 < size_n x" and "0 < size_c x" and "0 < size_h x" and "0 < size_w x"
  shows "forward cfg x x None = Inr (Some 0) \<and>
         (0 < alpha cfg \<longrightarrow>
            (\<exists>f g d nm. tensor2freq cfg x = Inr f \<and>
               g = (if ave_spectrum cfg then batch_mean f else f) \<and>
               freq_diff g g = Inr d \<and>
               normalise (batch_matrix cfg)
                 (if log_matrix cfg then map5 flog1p (map5 (distance_power (alpha cfg)) d)
                  else map5 (distance_power (alpha cfg)) d) = Inr nm \<and>
               (\<forall>n p c h w. inside g n p c h w \<longrightarrow>
                  bin nm n p c h w = NaN \<and> replace_nan_clamp (bin nm n p c h w) = 0) \<and>
               online_matrix cfg g g = Inr (map5 replace_nan_clamp nm)))"
proof -
  obtain f where f: "tensor2freq cfg x = Inr f" "dim_n f = size_n x" "0 < dim_p f"
    "dim_c f = size_c x" "0 < dim_h f" "0 < dim_w f"
    using tensor2freq_ok [OF assms(1,2,3,6,7)] by blast
  define g where "g = (if ave_spectrum cfg then batch_mean f else f)"
  have pos: "0 < dim_n g" "0 < dim_p g" "0 < dim_c g" "0 < dim_h g" "0 < dim_w g"
    using f assms(4,5) by (simp_all add: g_def)
  have l: "loss_formulation cfg g g None = Inr (Some 0)" by (rule loss_self_zero [OF pos])
  have n: "dim_n f \<noteq> 0" using f assms(4) by simp
  have "forward cfg x x None =
          seq (loss_formulation cfg g g None) (\<lambda>l. Inr (fmul l (Some (loss_weight cfg))))"
    by (simp add: forward_def f(1) n g_def)
  then have "forward cfg x x None = Inr (Some 0)" by (simp add: l fmul_def)
  moreover have "\<exists>f g d nm. tensor2freq cfg x = Inr f \<and>
               g = (if ave_spectrum cfg then batch_mean f else f) \<and>
               freq_diff g g = Inr d \<and>
               normalise (batch_matrix cfg)
                 (if log_matrix cfg then map5 flog1p (map5 (distance_power (alpha cfg)) d)
                  else map5 (distance_power (alpha cfg)) d) = Inr nm \<and>
               (\<forall>n p c h w. inside g n p c h w \<longrightarrow>
                  bin nm n p c h w = NaN \<and> replace_nan_clamp (bin nm n p c h w) = 0) \<and>
               online_matrix cfg g g = Inr (map5 replace_nan_clamp nm)"
    if a: "0 < alpha cfg"
    using zero_distance_weights [OF pos a] f(1) g_def by blast
  ultimately show ?thesis by blast
qed

theorem forward_of_equal_tensors_is_zero_witness:
  "0 < patch_factor (default_config\<lparr>patch_factor := 2\<rparr>) \<and>
   patch_factor (default_config\<lparr>patch_factor := 2\<rparr>) dvd int (size_h (test_batch 2 3 4 6)) \<and>
   patch_factor (default_config\<lparr>patch_factor := 2\<rparr>) dvd int (size_w (test_batch 2 3 4 6)) \<and>
   0 < alpha (default_config\<lparr>patch_factor := 2\<rparr>) \<and>
   forward (default_config\<lparr>patch_factor := 2\<rparr>) (test_batch 2 3 4 6) (test_batch 2 3 4 6) None
     = Inr (Some 0)"
proof -
  have h: "0 < patch_factor (default_config\<lparr>patch_factor := 2\<rparr>)"
    "patch_factor (default_config\<lparr>patch_factor := 2\<rparr>) dvd int (size_h (test_batch 2 3 4 6))"
    "patch_factor (default_config\<lparr>patch_factor := 2\<rparr>) dvd int (size_w (test_batch 2 3 4 6))"
    "0 < size_n (test_batch 2 3 4 6)" "0 < size_c (test_batch 2 3 4 6)"
    "0 < size_h (test_batch 2 3 4 6)" "0 < size_w (test_batch 2 3 4 6)"
    by (simp_all add: default_config_def test_batch_def)
  have a: "0 < alpha (default_config\<lparr>patch_factor := 2\<rparr>)" by (simp add: default_config_def)
  show ?thesis
    by (intro conjI h a forward_of_equal_tensors_is_zero [OF h, THEN conjunct1])
qed

section \<open>Properties of the spectral angle loss\<close>

subsection \<open>The mean of the angles\<close>

lemma fsum_None_iff: "fsum vs = None \<longleftrightarrow> None \<in> set vs"
proof (induction vs)
  case Nil
  show ?case by (simp add: fsum_def)
next
  case (Cons v vs)
  have "fsum (v # vs) = fadd v (fsum vs)" by (simp add: fsum_def)
  then show ?case using Cons by (cases v; cases "fsum vs") (auto simp: fadd_def)
qed

lemma fsum_Some: "fsum (map Some xs) = Some (sum_list xs)"
proof (induction xs)
  case Nil
  show ?case by (simp add: fsum_def)
next
  case (Cons x xs)
  have "fsum (map Some (x # xs)) = fadd (Some x) (fsum (map Some xs))" by (simp add: fsum_def)
  then show ?case using Cons by (simp add: fadd_def)
qed

lemma mean_all_outside:
  assumes "v \<in> set s" and "v < - 1 \<or> 1 < v"
  shows "mean_all (map acos s) = None"
proof -
  have "acos v = None" using assms(2) by (auto simp: acos_def)
  then have "None \<in> set (map acos s)" using assms(1) by force
  then have "fsum (map acos s) = None" by (simp only: fsum_None_iff)
  then show ?thesis by (simp add: mean_all_def)
qed

lemma mean_all_inside:
  assumes "s \<noteq> []" and "\<forall>v \<in> set s. - 1 \<le> v \<and> v \<le> 1"
  shows "mean_all (map acos s) = Some (sum_list (map arccos s) / real (length s))"
proof -
  have "map acos s = map Some (map arccos s)" using assms(2) by (simp add: acos_def)
  then have "fsum (map acos s) = Some (sum_list (map arccos s))" by (simp only: fsum_Some)
  then show ?thesis using assms(1) by (simp add: mean_all_def fdiv_def)
qed

subsection \<open>The exact cosine similarity\<close>

lemma sum_squares_nonneg: "0 \<le> sum_list (map (\<lambda>u. u ^ 2) (a :: real list))"
  by (induction a) simp_all

lemma sqrt_pair_bound:
  fixes p q u v :: real
  assumes "0 \<le> p" "0 \<le> q"
  shows "sqrt p * sqrt q + \<bar>u * v\<bar> \<le> sqrt (u ^ 2 + p) * sqrt (v ^ 2 + q)"
proof -
  define sa sb where "sa = sqrt p" and "sb = sqrt q"
  have s: "0 \<le> sa" "0 \<le> sb" "sa ^ 2 = p" "sb ^ 2 = q" using assms by (simp_all add: sa_def sb_def)
  have "0 \<le> (sa * \<bar>v\<bar> - sb * \<bar>u\<bar>) ^ 2" by simp
  then have "2 * (sa * sb * (\<bar>u\<bar> * \<bar>v\<bar>)) \<le> sa ^ 2 * v ^ 2 + sb ^ 2 * u ^ 2"
    by (simp add: power2_eq_square algebra_simps)
  then have "(sa * sb + \<bar>u\<bar> * \<bar>v\<bar>) ^ 2 \<le> (u ^ 2 + sa ^ 2) * (v ^ 2 + sb ^ 2)"
    by (simp add: power2_eq_square algebra_simps)
  then have "sa * sb + \<bar>u\<bar> * \<bar>v\<bar> \<le> sqrt ((u ^ 2 + sa ^ 2) * (v ^ 2 + sb ^ 2))"
    by (rule real_le_rsqrt)
  then show ?thesis by (simp add: s real_sqrt_mult abs_mult sa_def [symmetric] sb_def [symmetric])
qed

lemma dot_le_norms: "\<bar>dot a b\<bar> \<le> norm2 a * norm2 b"
proof (induction a arbitrary: b)
  case Nil
  show ?case by (simp add: dot_def norm2_def)
next
  case (Cons u a)
  show ?case
  proof (cases b)
    case Nil
    then show ?thesis by (simp add: dot_def norm2_def sum_squares_nonneg)
  next
    case (Cons v b')
    have "\<bar>dot (u # a) (v # b')\<bar> = \<bar>u * v + dot a b'\<bar>" by (simp add: dot_def)
    also have "\<dots> \<le> \<bar>u * v\<bar> + \<bar>dot a b'\<bar>" by (rule abs_triangle_ineq)
    also have "\<dots> \<le> \<bar>u * v\<bar> + norm2 a * norm2 b'" using Cons.IH [of b'] by simp
    also have "\<dots> \<le> norm2 (u # a) * norm2 (v # b')"
      using sqrt_pair_bound [OF sum_squares_nonneg sum_squares_nonneg, of a b' u v]
      by (simp add: norm2_def)
    finally show ?thesis using Cons by simp
  qed
qed

lemma cosine_similarity_range:
  "- 1 \<le> cosine_similarity a b \<and> cosine_similarity a b \<le> 1"
proof -
  define m where "m = max (norm2 a * norm2 b) (1 / 10 ^ 8)"
  have m: "0 < m" "norm2 a * norm2 b \<le> m" by (simp_all add: m_def)
  have "\<bar>dot a b\<bar> \<le> m" using dot_le_norms [of a b] m(2) by linarith
  then have "\<bar>dot a b / m\<bar> \<le> 1" using m(1) by (simp add: field_simps)
  then show ?thesis unfolding cosine_similarity_def m_def [symmetric] by linarith
qed

lemma cosine_similarity_self:
  assumes "1 / 10 ^ 8 \<le> sum_list (map (\<lambda>u. u ^ 2) a)"
  shows "cosine_similarity a a = 1"
proof -
  have n: "norm2 a * norm2 a = sum_list (map (\<lambda>u. u ^ 2) a)"
    by (simp add: norm2_def sum_squares_nonneg)
  have "dot a a = sum_list (map (\<lambda>u. u ^ 2) a)"
    by (induction a) (simp_all add: dot_def power2_eq_square)
  then show ?thesis using assms by (simp add: cosine_similarity_def n max_def)
qed

subsection \<open>The argument of the arccosine\<close>

lemma similarities_matching:
  assumes "size_n y = size_n x" "size_c y = size_c x" "size_h y = size_h x" "size_w y = size_w x"
  shows "\<exists>s. similarities cos_sim x y = Inr s \<and>
           length s = size_n x * size_h x * size_w x"
proof -
  have l: "length (concat (map (\<lambda>n. concat (map (\<lambda>h. map (f n h) [0..<W]) [0..<H])) [0..<N]))
        = N * H * W" for f :: "nat \<Rightarrow> nat \<Rightarrow> nat \<Rightarrow> real" and N H W
    by (simp add: length_concat comp_def sum_list_triv)
  show ?thesis
    using assms by (simp add: similarities_def bc_ok_def bc_dim_def Let_def l)
qed

text \<open>
  Claim C1, as the code has it. For \<open>x\<close> and \<open>y\<close> of the same shape
  \<^verbatim>\<open>reconstruction_SADloss.forward\<close> applies the arccosine to the cosine similarities as
  the library returns them, without clamping them. When one of them lies outside
  \<open>[-1, 1]\<close> the arccosine is evaluated outside its domain and the loss is NaN; when all of
  them lie in \<open>[-1, 1]\<close>, and there is one, the loss is the mean of their arccosines. The
  exact value of the cosine similarity always lies in \<open>[-1, 1]\<close>.
\<close>

theorem forward_applies_arccos_unclamped:
  assumes "size_n y = size_n x" and "size_c y = size_c x"
    and "size_h y = size_h x" and "size_w y = size_w x"
  shows "\<exists>s. similarities cos_sim x y = Inr s \<and>
           ((\<exists>v \<in> set s. v < - 1 \<or> 1 < v) \<longrightarrow>
              reconstruction_SADloss_forward cos_sim x y = Inr None) \<and>
           (s \<noteq> [] \<and> (\<forall>v \<in> set s. - 1 \<le> v \<and> v \<le> 1) \<longrightarrow>
              reconstruction_SADloss_forward cos_sim x y =
                Inr (Some (sum_list (map arccos s) / real (length s)))) \<and>
           (\<forall>a b. - 1 \<le> cosine_similarity a b \<and> cosine_similarity a b \<le> 1)"
proof -
  obtain s where s: "similarities cos_sim x y = Inr s"
    using similarities_matching [OF assms] by blast
  have "reconstruction_SADloss_forward cos_sim x y = Inr None"
    if out: "\<exists>v \<in> set s. v < - 1 \<or> 1 < v"
  proof -
    obtain v where "v \<in> set s" "v < - 1 \<or> 1 < v" using out by blast
    then have "mean_all (map acos s) = None" by (rule mean_all_outside)
    then show ?thesis by (simp add: reconstruction_SADloss_forward_def s)
  qed
  moreover have "reconstruction_SADloss_forward cos_sim x y =
                Inr (Some (sum_list (map arccos s) / real (length s)))"
    if "s \<noteq> [] \<and> (\<forall>v \<in> set s. - 1 \<le> v \<and> v \<le> 1)"
    using mean_all_inside [of s] that by (simp add: reconstruction_SADloss_forward_def s)
  ultimately show ?thesis using s cosine_similarity_range by blast
qed

subsection \<open>Two aligned vectors\<close>

lemma one_pixel_sizes [simp]:
  "size_n one_pixel = 1" "size_c one_pixel = 3" "size_h one_pixel = 1" "size_w one_pixel = 1"
  by (simp_all add: one_pixel_def test_batch_def)

lemma aligned_vector: "channel_vector 3 one_pixel 0 0 0 = [0, 1 / 16, 1 / 8]"
proof -
  have "[0..<3] = [0, 1, 2]" by (simp add: upt_rec)
  then show ?thesis by (simp add: channel_vector_def one_pixel_def test_batch_def bidx_def)
qed

lemma aligned_similarity:
  "cosine_similarity (channel_vector 3 one_pixel 0 0 0) (channel_vector 3 one_pixel 0 0 0) = 1"
proof (rule cosine_similarity_self)
  show "1 / 10 ^ 8 \<le> (\<Sum>u\<leftarrow>channel_vector 3 one_pixel 0 0 0. u\<^sup>2)"
    unfolding aligned_vector by (simp add: power2_eq_square)
qed

lemma similarities_single:
  "similarities cos_sim one_pixel one_pixel =
     Inr [cos_sim (channel_vector 3 one_pixel 0 0 0) (channel_vector 3 one_pixel 0 0 0)]"
  by (simp add: similarities_def bc_ok_def bc_dim_def)

lemma forward_single:
  "similarities cos_sim x y = Inr [v] \<Longrightarrow>
     reconstruction_SADloss_forward cos_sim x y = Inr (acos v)"
  by (cases "acos v")
    (simp_all add: reconstruction_SADloss_forward_def mean_all_def fsum_def fadd_def fdiv_def)

theorem forward_evaluates_arccos_above_one:
  "similarities overshoot one_pixel one_pixel = Inr [1 + 1 / 2 ^ 23] \<and>
   reconstruction_SADloss_forward overshoot one_pixel one_pixel = Inr None"
proof -
  have s: "similarities overshoot one_pixel one_pixel = Inr [1 + 1 / 2 ^ 23]"
    by (simp only: similarities_single overshoot_def aligned_similarity)
  have "acos (1 + 1 / 2 ^ 23) = None" by (simp add: acos_def)
  then have "reconstruction_SADloss_forward overshoot one_pixel one_pixel = Inr None"
    using forward_single [OF s] by simp
  then show ?thesis using s by simp
qed

theorem forward_applies_arccos_unclamped_witness:
  "size_n one_pixel = size_n one_pixel \<and> size_c one_pixel = size_c one_pixel \<and>
   size_h one_pixel = size_h one_pixel \<and> size_w one_pixel = size_w one_pixel \<and>
   reconstruction_SADloss_forward (\<lambda>a b. 1 + 1 / 2 ^ 23) one_pixel one_pixel = Inr None \<and>
   reconstruction_SADloss_forward cosine_similarity one_pixel one_pixel = Inr (Some 0)"
proof -
  let ?up = "\<lambda>a b :: real list. 1 + 1 / 2 ^ 23 :: real"
  obtain s where s: "similarities ?up one_pixel one_pixel = Inr s"
    and out: "(\<exists>v \<in> set s. v < - 1 \<or> 1 < v) \<longrightarrow>
                reconstruction_SADloss_forward ?up one_pixel one_pixel = Inr None"
    using forward_applies_arccos_unclamped [OF refl refl refl refl, of ?up one_pixel] by blast
  have s1: "s = [1 + 1 / 2 ^ 23]" using s unfolding similarities_single by simp
  have "\<exists>v \<in> set s. v < - 1 \<or> 1 < v"
    unfolding s1 by (rule bexI [where x = "1 + 1 / 2 ^ 23"]) simp_all
  then have a: "reconstruction_SADloss_forward ?up one_pixel one_pixel = Inr None"
    using out by blast
  obtain t where t: "similarities cosine_similarity one_pixel one_pixel = Inr t"
    and ins: "t \<noteq> [] \<and> (\<forall>v \<in> set t. - 1 \<le> v \<and> v \<le> 1) \<longrightarrow>
                reconstruction_SADloss_forward cosine_similarity one_pixel one_pixel =
                  Inr (Some (sum_list (map arccos t) / real (length t)))"
    using forward_applies_arccos_unclamped [OF refl refl refl refl, of cosine_similarity one_pixel]
    by blast
  have t1: "t = [1]" using t unfolding similarities_single aligned_similarity by simp
  have "t \<noteq> [] \<and> (\<forall>v \<in> set t. - 1 \<le> v \<and> v \<le> 1)" unfolding t1 by simp
  then have "reconstruction_SADloss_forward cosine_similarity one_pixel one_pixel =
                  Inr (Some (sum_list (map arccos t) / real (length t)))"
    using ins by blast
  then have b: "reconstruction_SADloss_forward cosine_similarity one_pixel one_pixel = Inr (Some 0)"
    unfolding t1 by simp
  show ?thesis using a b by simp
qed

end
